theory Spec2Isabelle
  imports Main "HOL-Library.AList" "HOL-Library.Sublist"
begin

unbundle bit_operations_syntax

section \<open>StringSpace: interning lock-class labels\<close>

text \<open>
  \<^verbatim>\<open>type StringSpace struct { m map[string]int; s []string }\<close>.
  The identifiers handed out are lengths of \<open>s\<close>, hence natural numbers.
\<close>

record StringSpace =
  sp_m :: "string \<rightharpoonup> nat"
  sp_s :: "string list"

definition NewStringSpace :: StringSpace where
  "NewStringSpace = \<lparr>sp_m = Map.empty, sp_s = []\<rparr>"

text \<open>\<open>Intern\<close> returns the identifier together with the updated StringSpace.\<close>

definition Intern :: "StringSpace \<Rightarrow> string \<Rightarrow> nat \<times> StringSpace" where
  "Intern spc str =
     (case sp_m spc str of
        Some i \<Rightarrow> (i, spc)
      | None \<Rightarrow>
          (let i = length (sp_s spc)
           in (i, \<lparr>sp_m = (sp_m spc)(str \<mapsto> i), sp_s = sp_s spc @ [str]\<rparr>)))"

section \<open>LockSet\<close>

text \<open>
  A \<^verbatim>\<open>*StackFrame\<close> is an address or nil; nil is the empty stack.  A LockSet
  refers to its StringSpace by address (field \<open>sp\<close>); the StringSpace object itself is
  threaded through the operations that intern labels.  \<open>bits\<close> is a \<^verbatim>\<open>big.Int\<close>,
  \<open>stacks\<close> a Go map whose values may be nil.
\<close>

type_synonym sfptr = "nat option"

record LockSet =
  sp :: nat
  bits :: int
  stacks :: "nat \<rightharpoonup> sfptr"

text \<open>Reading a Go map at a missing key gives the zero value, here the nil pointer.\<close>

definition stack_at :: "(nat \<rightharpoonup> sfptr) \<Rightarrow> nat \<Rightarrow> sfptr" where
  "stack_at mp k = (case mp k of None \<Rightarrow> None | Some v \<Rightarrow> v)"

definition NewLockSet :: "nat \<Rightarrow> LockSet" where
  "NewLockSet a = \<lparr>sp = a, bits = 0, stacks = Map.empty\<rparr>"

definition clone :: "LockSet \<Rightarrow> LockSet" where
  "clone ls = \<lparr>sp = sp ls, bits = bits ls, stacks = (\<lambda>k. stacks ls k)\<rparr>"

text \<open>\<open>HashKey\<close> is \<^verbatim>\<open>bits.Text(16)\<close>, an injective rendering of the integer; the
  integer itself stands for the string.\<close>

definition HashKey :: "LockSet \<Rightarrow> int" where
  "HashKey ls = bits ls"

definition Equal :: "LockSet \<Rightarrow> LockSet \<Rightarrow> bool" where
  "Equal ls ls2 =
     (if sp ls \<noteq> sp ls2 then False
      else if bits ls \<noteq> bits ls2 then False
      else (\<forall>k \<in> dom (stacks ls). stack_at (stacks ls2) k = stack_at (stacks ls) k))"

text \<open>
  The loop of \<open>Plus\<close>.  \<open>same\<close> is the test \<^verbatim>\<open>out == set\<close>: the receiver is cloned
  before the first write and never written itself.
\<close>

fun Plus_loop :: "StringSpace \<Rightarrow> LockSet \<Rightarrow> bool \<Rightarrow> string list \<Rightarrow> sfptr
                   \<Rightarrow> StringSpace \<times> LockSet" where
  "Plus_loop spc out same [] stack = (spc, out)"
| "Plus_loop spc out same (label # labels) stack =
     (let (i, spc') = Intern spc label
      in if bit (bits out) i then Plus_loop spc' out same labels stack
         else
           (let out1 = (if same then clone out else out);
                out2 = out1\<lparr>bits := set_bit i (bits out1)\<rparr>;
                out3 = out2\<lparr>stacks := (stacks out2)(i \<mapsto> stack)\<rparr>
            in Plus_loop spc' out3 False labels stack))"

definition Plus :: "StringSpace \<Rightarrow> LockSet \<Rightarrow> string list \<Rightarrow> sfptr \<Rightarrow> StringSpace \<times> LockSet" where
  "Plus spc ls labels stack = Plus_loop spc ls True labels stack"

definition PlusLabel :: "StringSpace \<Rightarrow> LockSet \<Rightarrow> string \<Rightarrow> sfptr \<Rightarrow> StringSpace \<times> LockSet" where
  "PlusLabel spc ls label stack =
     (let (i, spc') = Intern spc label
      in if bit (bits ls) i then (spc', ls)
         else
           (let out = clone ls;
                out2 = out\<lparr>bits := set_bit i (bits out)\<rparr>;
                out3 = out2\<lparr>stacks := (stacks out2)(i \<mapsto> stack)\<rparr>
            in (spc', out3)))"

text \<open>
  \<open>Union\<close>.  The loop \<^verbatim>\<open>for k, v := range o.stacks\<close> writes key \<open>k\<close> only in the
  iteration for \<open>k\<close>, so its result is given key by key, whatever the iteration order.
\<close>

definition Union_stacks :: "(nat \<rightharpoonup> sfptr) \<Rightarrow> (nat \<rightharpoonup> sfptr) \<Rightarrow> (nat \<rightharpoonup> sfptr)" where
  "Union_stacks outs os =
     (\<lambda>k. case os k of
            None \<Rightarrow> outs k
          | Some v \<Rightarrow> if stack_at outs k = None then Some v else outs k)"

definition Union :: "LockSet \<Rightarrow> LockSet \<Rightarrow> LockSet" where
  "Union ls ob =
     (let new = bits ob AND NOT (bits ls)
      in if new = 0 then ls
         else
           (let out = clone ls;
                out2 = out\<lparr>bits := bits out OR bits ob\<rparr>
            in out2\<lparr>stacks := Union_stacks (stacks out2) (stacks ob)\<rparr>))"

fun Minus_loop :: "StringSpace \<Rightarrow> LockSet \<Rightarrow> bool \<Rightarrow> string list \<Rightarrow> StringSpace \<times> LockSet" where
  "Minus_loop spc out same [] = (spc, out)"
| "Minus_loop spc out same (label # labels) =
     (let (i, spc') = Intern spc label
      in if \<not> bit (bits out) i then Minus_loop spc' out same labels
         else
           (let out1 = (if same then clone out else out);
                out2 = out1\<lparr>bits := unset_bit i (bits out1)\<rparr>;
                out3 = out2\<lparr>stacks := (stacks out2)(i := None)\<rparr>
            in Minus_loop spc' out3 False labels))"

definition Minus :: "StringSpace \<Rightarrow> LockSet \<Rightarrow> string list \<Rightarrow> StringSpace \<times> LockSet" where
  "Minus spc ls labels = Minus_loop spc ls True labels"

definition MinusLabel :: "StringSpace \<Rightarrow> LockSet \<Rightarrow> string \<Rightarrow> StringSpace \<times> LockSet" where
  "MinusLabel spc ls label =
     (let (i, spc') = Intern spc label
      in if \<not> bit (bits ls) i then (spc', ls)
         else
           (let out = clone ls;
                out2 = out\<lparr>bits := unset_bit i (bits out)\<rparr>;
                out3 = out2\<lparr>stacks := (stacks out2)(i := None)\<rparr>
            in (spc', out3)))"

text \<open>Lockset integrity: a bit is set exactly for the keys of \<open>stacks\<close>.\<close>

definition integrity :: "LockSet \<Rightarrow> bool" where
  "integrity ls = (\<forall>i. bit (bits ls) i \<longleftrightarrow> i \<in> dom (stacks ls))"

text \<open>The LockSets that the constructors and operations can produce, from any state of
  the StringSpace.\<close>

inductive reachable :: "LockSet \<Rightarrow> bool" where
  r_new: "reachable (NewLockSet a)"
| r_plus: "reachable ls \<Longrightarrow> reachable (snd (Plus spc ls labels stack))"
| r_plus_label: "reachable ls \<Longrightarrow> reachable (snd (PlusLabel spc ls label stack))"
| r_minus: "reachable ls \<Longrightarrow> reachable (snd (Minus spc ls labels))"
| r_minus_label: "reachable ls \<Longrightarrow> reachable (snd (MinusLabel spc ls label))"
| r_union: "reachable ls \<Longrightarrow> reachable ob \<Longrightarrow> reachable (Union ls ob)"

section \<open>Properties of the lockset algebra\<close>

lemma clone_id [simp]: "clone ls = ls"
  by (simp add: clone_def)

lemma integrity_new: "integrity (NewLockSet a)"
  by (simp add: integrity_def NewLockSet_def)

lemma integrity_set:
  assumes "integrity ls"
  shows "integrity (ls\<lparr>bits := set_bit i (bits ls), stacks := (stacks ls)(i \<mapsto> stk)\<rparr>)"
  using assms by (auto simp: integrity_def bit_set_bit_iff)

lemma integrity_unset:
  assumes "integrity ls"
  shows "integrity (ls\<lparr>bits := unset_bit i (bits ls), stacks := (stacks ls)(i := None)\<rparr>)"
  using assms by (auto simp: integrity_def bit_unset_bit_iff)

lemma integrity_Plus_loop:
  "integrity out \<Longrightarrow> integrity (snd (Plus_loop spc out same labels stack))"
proof (induction labels arbitrary: spc out same)
  case Nil
  then show ?case by simp
next
  case (Cons label labels)
  obtain i spc' where I: "Intern spc label = (i, spc')" by (cases "Intern spc label")
  show ?case
  proof (cases "bit (bits out) i")
    case True
    with I Cons show ?thesis by simp
  next
    case False
    have "integrity (out\<lparr>bits := set_bit i (bits out), stacks := (stacks out)(i \<mapsto> stack)\<rparr>)"
      using Cons.prems by (rule integrity_set)
    from Cons.IH [OF this] I False show ?thesis by simp
  qed
qed

lemma integrity_Minus_loop:
  "integrity out \<Longrightarrow> integrity (snd (Minus_loop spc out same labels))"
proof (induction labels arbitrary: spc out same)
  case Nil
  then show ?case by simp
next
  case (Cons label labels)
  obtain i spc' where I: "Intern spc label = (i, spc')" by (cases "Intern spc label")
  show ?case
  proof (cases "bit (bits out) i")
    case False
    with I Cons show ?thesis by simp
  next
    case True
    have "integrity (out\<lparr>bits := unset_bit i (bits out), stacks := (stacks out)(i := None)\<rparr>)"
      using Cons.prems by (rule integrity_unset)
    from Cons.IH [OF this] I True show ?thesis by simp
  qed
qed

lemma integrity_PlusLabel:
  "integrity ls \<Longrightarrow> integrity (snd (PlusLabel spc ls label stack))"
  using integrity_set [of ls]
  by (auto simp: PlusLabel_def Let_def split: prod.splits)

lemma integrity_MinusLabel:
  "integrity ls \<Longrightarrow> integrity (snd (MinusLabel spc ls label))"
  using integrity_unset [of ls]
  by (auto simp: MinusLabel_def Let_def split: prod.splits)

lemma integrity_Union:
  assumes "integrity ls" and "integrity ob"
  shows "integrity (Union ls ob)"
proof -
  have "\<And>i. (bit (bits ls) i \<or> bit (bits ob) i) \<longleftrightarrow>
             i \<in> dom (Union_stacks (stacks ls) (stacks ob))"
    using assms
    by (auto simp: integrity_def Union_stacks_def dom_def stack_at_def
             split: option.splits if_splits)
  then show ?thesis
    using assms(1) by (simp add: Union_def Let_def integrity_def bit_or_iff)
qed

text \<open>
  Claim C6.  Every LockSet obtained from \<open>NewLockSet\<close> by \<open>Plus\<close>, \<open>PlusLabel\<close>,
  \<open>Minus\<close>, \<open>MinusLabel\<close> and \<open>Union\<close> has the bit of a lock-class id set in
  \<open>bits\<close> if and only if the id is a key of \<open>stacks\<close>.
\<close>

theorem lockset_integrity:
  "reachable ls \<Longrightarrow> (\<forall>i. bit (bits ls) i \<longleftrightarrow> i \<in> dom (stacks ls))"
proof -
  assume "reachable ls"
  then have "integrity ls"
  proof (induction rule: reachable.induct)
    case (r_new a)
    show ?case by (rule integrity_new)
  next
    case (r_plus ls spc labels stack)
    then show ?case by (simp add: Plus_def integrity_Plus_loop)
  next
    case (r_plus_label ls spc label stack)
    then show ?case by (simp add: integrity_PlusLabel)
  next
    case (r_minus ls spc labels)
    then show ?case by (simp add: Minus_def integrity_Minus_loop)
  next
    case (r_minus_label ls spc label)
    then show ?case by (simp add: integrity_MinusLabel)
  next
    case (r_union ls ob)
    then show ?case by (simp add: integrity_Union)
  qed
  then show ?thesis by (simp add: integrity_def)
qed


definition ex_spc :: StringSpace where
  "ex_spc = fst (PlusLabel NewStringSpace (NewLockSet 0) ''x'' None)"

definition ex_held :: LockSet where
  "ex_held = snd (PlusLabel NewStringSpace (NewLockSet 0) ''x'' None)"

lemma ex_held_val: "ex_held = \<lparr>sp = 0, bits = 1, stacks = [0 \<mapsto> None]\<rparr>"
  by (simp add: ex_held_def PlusLabel_def Intern_def NewStringSpace_def NewLockSet_def Let_def)

lemma ex_spc_val: "ex_spc = \<lparr>sp_m = [''x'' \<mapsto> 0], sp_s = [''x'']\<rparr>"
  by (simp add: ex_spc_def PlusLabel_def Intern_def NewStringSpace_def NewLockSet_def Let_def)

theorem lockset_integrity_witness:
  "reachable ex_held \<and> (\<forall>i. bit (bits ex_held) i \<longleftrightarrow> i \<in> dom (stacks ex_held))"
proof -
  have r: "reachable ex_held"
    unfolding ex_held_def by (rule r_plus_label) (rule r_new)
  from r lockset_integrity [OF r] show ?thesis by simp
qed

subsection \<open>Adding and removing the same classes\<close>

lemma Intern_known: "sp_m spc l = Some i \<Longrightarrow> Intern spc l = (i, spc)"
  by (simp add: Intern_def)

lemma Intern_stored: "Intern spc l = (i, spc') \<Longrightarrow> sp_m spc' l = Some i"
  by (auto simp: Intern_def Let_def split: option.splits)

lemma Intern_mono: "Intern spc l = (i, spc') \<Longrightarrow> sp_m spc \<subseteq>\<^sub>m sp_m spc'"
  by (auto simp: Intern_def Let_def map_le_def split: option.splits)

definition ids_of :: "StringSpace \<Rightarrow> string list \<Rightarrow> nat set" where
  "ids_of spc labels = {i. \<exists>l \<in> set labels. sp_m spc l = Some i}"

lemma Plus_loop_effect:
  "Plus_loop spc out same labels stk = (spc1, out1) \<Longrightarrow>
     sp_m spc \<subseteq>\<^sub>m sp_m spc1 \<and> set labels \<subseteq> dom (sp_m spc1) \<and> sp out1 = sp out \<and>
     (\<forall>i. bit (bits out1) i \<longleftrightarrow> bit (bits out) i \<or> i \<in> ids_of spc1 labels) \<and>
     (\<forall>k. k \<notin> ids_of spc1 labels \<longrightarrow> stacks out1 k = stacks out k)"
proof (induction labels arbitrary: spc out same)
  case Nil
  then show ?case by (simp add: ids_of_def)
next
  case (Cons label labels)
  obtain i spc' where I: "Intern spc label = (i, spc')" by (cases "Intern spc label")
  define nxt where "nxt = (if bit (bits out) i then out
     else out\<lparr>bits := set_bit i (bits out), stacks := (stacks out)(i \<mapsto> stk)\<rparr>)"
  have "\<exists>b. Plus_loop spc' nxt b labels stk = (spc1, out1)"
    using Cons.prems I by (auto simp: nxt_def split: if_splits)
  then obtain b where R: "Plus_loop spc' nxt b labels stk = (spc1, out1)" ..
  note IH = Cons.IH [OF R]
  have le: "sp_m spc' \<subseteq>\<^sub>m sp_m spc1" using IH by simp
  have si: "sp_m spc1 label = Some i"
    using Intern_stored [OF I] le by (auto simp: map_le_def dom_def)
  have ids: "ids_of spc1 (label # labels) = insert i (ids_of spc1 labels)"
    using si by (auto simp: ids_of_def)
  have m: "sp_m spc \<subseteq>\<^sub>m sp_m spc1"
    using Intern_mono [OF I] le by (rule map_le_trans)
  have d: "set (label # labels) \<subseteq> dom (sp_m spc1)"
    using IH si by auto
  have s: "sp out1 = sp out" using IH by (simp add: nxt_def)
  have b: "\<forall>j. bit (bits out1) j \<longleftrightarrow> bit (bits out) j \<or> j \<in> ids_of spc1 (label # labels)"
    using IH unfolding ids by (auto simp: nxt_def bit_set_bit_iff split: if_splits)
  have k: "\<forall>k. k \<notin> ids_of spc1 (label # labels) \<longrightarrow> stacks out1 k = stacks out k"
    using IH unfolding ids by (auto simp: nxt_def split: if_splits)
  from m d s b k show ?case by blast
qed

lemma Minus_loop_effect:
  "set labels \<subseteq> dom (sp_m spc) \<Longrightarrow>
   Minus_loop spc out same labels = (spc1, out1) \<Longrightarrow>
     spc1 = spc \<and> sp out1 = sp out \<and>
     (\<forall>i. bit (bits out1) i \<longleftrightarrow> bit (bits out) i \<and> i \<notin> ids_of spc labels) \<and>
     (\<forall>k. stacks out1 k = (if k \<in> ids_of spc labels \<and> bit (bits out) k then None else stacks out k))"
proof (induction labels arbitrary: out same)
  case Nil
  then show ?case by (simp add: ids_of_def)
next
  case (Cons label labels)
  from Cons.prems(1) obtain i where si: "sp_m spc label = Some i" by auto
  have I: "Intern spc label = (i, spc)" using si by (rule Intern_known)
  define nxt where "nxt = (if \<not> bit (bits out) i then out
     else out\<lparr>bits := unset_bit i (bits out), stacks := (stacks out)(i := None)\<rparr>)"
  have "\<exists>b. Minus_loop spc nxt b labels = (spc1, out1)"
    using Cons.prems(2) I by (auto simp: nxt_def split: if_splits)
  then obtain b where R: "Minus_loop spc nxt b labels = (spc1, out1)" ..
  have sub: "set labels \<subseteq> dom (sp_m spc)" using Cons.prems(1) by simp
  note IH = Cons.IH [OF sub R]
  have ids: "ids_of spc (label # labels) = insert i (ids_of spc labels)"
    using si by (auto simp: ids_of_def)
  have b: "\<forall>j. bit (bits out1) j \<longleftrightarrow> bit (bits out) j \<and> j \<notin> ids_of spc (label # labels)"
    using IH unfolding ids by (auto simp: nxt_def bit_unset_bit_iff split: if_splits)
  have k: "\<forall>k. stacks out1 k =
      (if k \<in> ids_of spc (label # labels) \<and> bit (bits out) k then None else stacks out k)"
    using IH unfolding ids by (auto simp: nxt_def bit_unset_bit_iff split: if_splits)
  from IH b k show ?case by (simp add: nxt_def)
qed

text \<open>
  Claim C7.  \<open>ls.Plus(S, stk).Minus(S)\<close> is \<open>Equal\<close> to \<open>ls\<close> when no lock class of
  \<open>S\<close> is present in \<open>ls\<close>.  \<open>spc\<close> is the StringSpace before the call of \<open>Plus\<close>,
  \<open>spc1\<close> the one after it, in which every label of \<open>S\<close> has its id.
\<close>

theorem plus_minus_restores:
  assumes P: "Plus spc ls labels stk = (spc1, ls1)"
    and M: "Minus spc1 ls1 labels = (spc2, ls2)"
    and fresh: "\<forall>l \<in> set labels. \<not> bit (bits ls) (fst (Intern spc1 l))"
  shows "Equal ls2 ls"
proof -
  note pe = Plus_loop_effect [OF P [unfolded Plus_def]]
  have sub: "set labels \<subseteq> dom (sp_m spc1)" using pe by simp
  note me = Minus_loop_effect [OF sub M [unfolded Minus_def]]
  have absent: "\<not> bit (bits ls) i" if "i \<in> ids_of spc1 labels" for i
  proof -
    from that obtain l where l: "l \<in> set labels" "sp_m spc1 l = Some i"
      by (auto simp: ids_of_def)
    then have "fst (Intern spc1 l) = i" by (simp add: Intern_known)
    with fresh l(1) show ?thesis by auto
  qed
  have "bit (bits ls2) i \<longleftrightarrow> bit (bits ls) i" for i
    using pe me absent [of i] by auto
  then have bits_eq: "bits ls2 = bits ls" by (auto intro: bit_eqI)
  have st: "stack_at (stacks ls) k = stack_at (stacks ls2) k" if "k \<in> dom (stacks ls2)" for k
  proof -
    have "k \<notin> ids_of spc1 labels \<or> \<not> bit (bits ls1) k"
      using me that by (auto split: if_splits)
    moreover have "bit (bits ls1) k" if "k \<in> ids_of spc1 labels" using pe that by simp
    ultimately have nk: "k \<notin> ids_of spc1 labels" by blast
    then have "stacks ls2 k = stacks ls k" using pe me by simp
    then show ?thesis by (simp add: stack_at_def)
  qed
  have "sp ls2 = sp ls" using pe me by simp
  with bits_eq st show ?thesis by (simp add: Equal_def)
qed



definition ex_spc1 :: StringSpace where
  "ex_spc1 = \<lparr>sp_m = [''x'' \<mapsto> 0, ''a'' \<mapsto> 1, ''b'' \<mapsto> 2], sp_s = [''x'', ''a'', ''b'']\<rparr>"

definition ex_held1 :: LockSet where
  "ex_held1 = \<lparr>sp = 0, bits = 7, stacks = [0 \<mapsto> None, 1 \<mapsto> Some 7, 2 \<mapsto> Some 7]\<rparr>"

lemma ex_plus: "Plus ex_spc ex_held [''a'', ''b''] (Some 7) = (ex_spc1, ex_held1)"
  by (simp add: ex_spc_val ex_held_val ex_spc1_def ex_held1_def Plus_def Intern_def Let_def
      bit_1_iff bit_set_bit_iff set_bit_eq_or numeral_2_eq_2)

theorem plus_minus_restores_witness:
  "\<not> bit (bits ex_held) (fst (Intern ex_spc1 ''a'')) \<and>
   \<not> bit (bits ex_held) (fst (Intern ex_spc1 ''b'')) \<and>
   Equal (snd (Minus ex_spc1 ex_held1 [''a'', ''b''])) ex_held"
proof -
  have f: "\<forall>l \<in> set [''a'', ''b'']. \<not> bit (bits ex_held) (fst (Intern ex_spc1 l))"
    by (simp add: ex_held_val ex_spc1_def Intern_def bit_1_iff)
  from f plus_minus_restores [OF ex_plus _ f, of "fst (Minus ex_spc1 ex_held1 [''a'', ''b''])"
       "snd (Minus ex_spc1 ex_held1 [''a'', ''b''])"]
  show ?thesis by simp
qed

subsection \<open>Union and the receiver's stacks\<close>

text \<open>Where the receiver records a stack other than nil, \<open>Union\<close> keeps it, and an id
  that only the argument holds comes with the argument's stack.\<close>

lemma Union_keeps_recorded_stack:
  "stack_at (stacks ls) i \<noteq> None \<Longrightarrow> stacks (Union ls ob) i = stacks ls i"
  by (auto simp: Union_def Union_stacks_def Let_def split: option.splits)

lemma Union_adds_new_id:
  assumes "integrity ls" and "integrity ob" and "\<not> bit (bits ls) i" and "bit (bits ob) i"
  shows "stacks (Union ls ob) i = stacks ob i"
proof -
  have n: "bits ob AND NOT (bits ls) \<noteq> 0"
  proof
    assume "bits ob AND NOT (bits ls) = 0"
    then have "\<not> bit (bits ob AND NOT (bits ls)) i" by simp
    with assms(3,4) show False by (simp add: bit_and_iff bit_not_iff)
  qed
  have "stacks ls i = None" using assms(1,3) by (auto simp: integrity_def)
  moreover obtain v where "stacks ob i = Some v" using assms(2,4) by (auto simp: integrity_def)
  ultimately show ?thesis
    using n by (simp add: Union_def Union_stacks_def stack_at_def Let_def)
qed

text \<open>
  Claim C3.  The doc comment of \<open>Union\<close> says that the receiver's stack is preferred for a
  lock that both sets contain.  The loop tests \<^verbatim>\<open>out.stacks[k] == nil\<close>, which also
  holds when the receiver has the key with the nil (empty) stack.  Here \<open>a\<close> holds
  \<open>x\<close> acquired at the empty stack, \<open>b\<close> holds \<open>x\<close> and \<open>y\<close> acquired at frame 5:
  the union records \<open>b\<close>'s stack for \<open>x\<close>.
\<close>

theorem Union_overrides_nil_stack:
  "(let (s1, a) = PlusLabel NewStringSpace (NewLockSet 0) ''x'' None;
        (s2, b1) = PlusLabel s1 (NewLockSet 0) ''x'' (Some 5);
        (s3, b) = PlusLabel s2 b1 ''y'' (Some 5)
    in bit (bits a) 0 \<and> bit (bits b) 0 \<and>
       stacks a 0 = Some None \<and> stacks b 0 = Some (Some 5) \<and>
       stacks (Union a b) 0 = Some (Some 5))"
  by (simp add: PlusLabel_def Intern_def NewStringSpace_def NewLockSet_def Let_def
      Union_def Union_stacks_def stack_at_def bit_set_bit_iff set_bit_eq_or)

section \<open>Symbolic values and value states\<close>

text \<open>Values of \<^verbatim>\<open>go/constant\<close>, as far as the walker inspects them.  \<open>BoolVal\<close> accepts a
  Bool or an Unknown (which reads as false) and panics on any other kind.\<close>

datatype constant_Value = MakeBool bool | MakeInt64 int | MakeUnknown

datatype error = NilDereference | IndexOutOfRange | TypeAssertion | NotABool

definition BoolVal :: "constant_Value \<Rightarrow> error + bool" where
  "BoolVal x = (case x of MakeBool b \<Rightarrow> Inr b | MakeUnknown \<Rightarrow> Inr False | MakeInt64 _ \<Rightarrow> Inl NotABool)"

text \<open>
  Modelled from the spec: the declarations of \<open>DynValue\<close> and \<open>ValState\<close> are not part of
  the sources at hand.  The spec gives \<open>DynValue\<close> as the sum \<open>Const | HeapPtr | Struct\<close>
  and \<open>ValState\<close> as a mapping from SSA values to \<open>DynValue\<close> with a separate mapping from
  heap objects to \<open>DynValue\<close>.  SSA values and heap objects are identified by numbers.
\<close>

datatype DynValue = DynConst constant_Value | DynHeapPtr nat | DynStruct "(string \<times> nat) list"

record ValState =
  vs_vals :: "nat \<rightharpoonup> DynValue"
  vs_heap :: "nat \<rightharpoonup> DynValue"

text \<open>Modelled from the spec: \<open>get(v)\<close> reads the binding of an SSA value; no binding is
  the nil \<open>DynValue\<close>.\<close>

definition Get :: "ValState \<Rightarrow> nat \<Rightarrow> DynValue option" where
  "Get st v = vs_vals st v"

text \<open>Modelled from the spec: \<open>extend(v, dyn)\<close> binds an SSA value.\<close>

definition Extend :: "ValState \<Rightarrow> nat \<Rightarrow> DynValue \<Rightarrow> ValState" where
  "Extend st v x = st\<lparr>vs_vals := (vs_vals st)(v \<mapsto> x)\<rparr>"

text \<open>Modelled from the spec: two value states are equal at a mask iff they agree on every
  value in the mask and on all heap entries.  A nil mask is the empty set.\<close>

definition EqualAt :: "ValState \<Rightarrow> ValState \<Rightarrow> nat set \<Rightarrow> bool" where
  "EqualAt st st2 msk = ((\<forall>v \<in> msk. vs_vals st v = vs_vals st2 v) \<and> vs_heap st = vs_heap st2)"

section \<open>PathState, PathStateSet\<close>

text \<open>A \<^verbatim>\<open>*ssa.BasicBlock\<close> is the number of the block, or nil.\<close>

record PathState =
  block :: "nat option"
  lockSet :: LockSet
  vs :: ValState
  mask_ps :: "nat set"

type_synonym pathStateKey = "nat option \<times> int"

definition PathState_HashKey :: "PathState \<Rightarrow> pathStateKey" where
  "PathState_HashKey ps = (block ps, HashKey (lockSet ps))"

definition PathState_Equal :: "PathState \<Rightarrow> PathState \<Rightarrow> bool" where
  "PathState_Equal ps ps2 =
     (block ps = block ps2 \<and> Equal (lockSet ps) (lockSet ps2) \<and> EqualAt (vs ps) (vs ps2) (mask_ps ps))"

text \<open>
  \<^verbatim>\<open>type PathStateSet struct { m map[pathStateKey][]PathState }\<close>.  The map is an
  association list with distinct keys; \<^verbatim>\<open>range set.m\<close> visits it in list order, so a
  statement about every list covers every iteration order of the Go map.
\<close>

type_synonym PathStateSet = "(pathStateKey \<times> PathState list) list"

definition NewPathStateSet :: PathStateSet where
  "NewPathStateSet = []"

text \<open>\<^verbatim>\<open>set.m[key]\<close>: a missing key reads as the nil slice.\<close>

definition bucket :: "PathStateSet \<Rightarrow> pathStateKey \<Rightarrow> PathState list" where
  "bucket m key = (case map_of m key of None \<Rightarrow> [] | Some slice \<Rightarrow> slice)"

definition Add :: "PathStateSet \<Rightarrow> PathState \<Rightarrow> PathStateSet" where
  "Add m ps =
     (let key = PathState_HashKey ps;
          slice = bucket m key
      in if list_ex (\<lambda>p. PathState_Equal p ps) slice then m
         else AList.update key (slice @ [ps]) m)"

definition Contains :: "PathStateSet \<Rightarrow> PathState \<Rightarrow> bool \<times> nat" where
  "Contains m ps =
     (let key = PathState_HashKey ps;
          slice = bucket m key
      in if list_ex (\<lambda>p. PathState_Equal p ps) slice then (True, length slice)
         else (False, length slice))"

text \<open>
  The inner loop of \<open>MapInPlace\<close> over one bucket: \<open>i\<close> is the loop index, \<open>slice\<close> the
  local slice, \<open>m\<close> the map and \<open>toAdd\<close> the queue.  A changed state is overwritten by
  the last element, the slice is shortened by one, and the index moves on.
\<close>

function MapInPlace_slice ::
  "(PathState \<Rightarrow> PathState) \<Rightarrow> pathStateKey \<Rightarrow> PathStateSet \<Rightarrow> PathState list \<Rightarrow> nat
     \<Rightarrow> PathState list \<Rightarrow> PathStateSet \<times> PathState list" where
  "MapInPlace_slice f hashKey m slice i toAdd =
     (if i < length slice then
        (let ps2 = f (slice ! i)
         in if PathState_Equal (slice ! i) ps2
            then MapInPlace_slice f hashKey m slice (i + 1) toAdd
            else
              (let slice1 = slice[i := slice ! (length slice - 1)];
                   slice2 = take (length slice1 - 1) slice1;
                   m2 = (if length slice2 = 0 then AList.delete hashKey m
                         else AList.update hashKey slice2 m)
               in MapInPlace_slice f hashKey m2 slice2 (i + 1) (toAdd @ [ps2])))
      else (m, toAdd))"
  by pat_completeness auto
termination
  by (relation "measure (\<lambda>(f, hashKey, m, slice, i, toAdd). length slice - i)") auto

declare MapInPlace_slice.simps [simp del]

text \<open>The outer loop visits the entries the map had when the loop began: an iteration
  changes the entry of its own key only.\<close>

fun MapInPlace_range ::
  "(PathState \<Rightarrow> PathState) \<Rightarrow> (pathStateKey \<times> PathState list) list \<Rightarrow> PathStateSet
     \<Rightarrow> PathState list \<Rightarrow> PathStateSet \<times> PathState list" where
  "MapInPlace_range f [] m toAdd = (m, toAdd)"
| "MapInPlace_range f ((hashKey, slice) # rest) m toAdd =
     (let (m2, toAdd2) = MapInPlace_slice f hashKey m slice 0 toAdd
      in MapInPlace_range f rest m2 toAdd2)"

definition MapInPlace :: "(PathState \<Rightarrow> PathState) \<Rightarrow> PathStateSet \<Rightarrow> PathStateSet" where
  "MapInPlace f m =
     (let (m2, toAdd) = MapInPlace_range f m m []
      in foldl Add m2 toAdd)"

definition FlatMap ::
  "(PathState \<Rightarrow> PathState list \<Rightarrow> PathState list) \<Rightarrow> PathStateSet \<Rightarrow> PathStateSet" where
  "FlatMap f m =
     foldl (\<lambda>out ps. foldl Add out (f ps [])) NewPathStateSet (concat (map snd m))"

subsection \<open>MapInPlace leaves the element swapped into a vacated slot untransformed\<close>

definition ex_vs :: "int \<Rightarrow> ValState" where
  "ex_vs n = \<lparr>vs_vals = [1 \<mapsto> DynConst (MakeInt64 n)], vs_heap = Map.empty\<rparr>"

definition ex_ps :: "int \<Rightarrow> PathState" where
  "ex_ps n = \<lparr>block = Some 0, lockSet = NewLockSet 0, vs = ex_vs n, mask_ps = {1, 2}\<rparr>"

text \<open>A transform of the kind \<open>walkBlock\<close> passes: it binds the SSA value 2.\<close>

definition ex_bind :: "PathState \<Rightarrow> PathState" where
  "ex_bind ps = ps\<lparr>vs := Extend (vs ps) 2 (DynConst (MakeBool True))\<rparr>"

lemmas ex_ps_simps =
  ex_ps_def ex_vs_def ex_bind_def PathState_HashKey_def HashKey_def NewLockSet_def
  PathState_Equal_def Equal_def EqualAt_def Extend_def bucket_def Let_def

lemma ex_Add_two:
  "Add (Add NewPathStateSet (ex_ps 0)) (ex_ps 1) = [((Some 0, 0), [ex_ps 0, ex_ps 1])]"
  by (simp add: Add_def NewPathStateSet_def ex_ps_simps)

lemma ex_not_Equal_bind: "PathState_Equal (ex_ps n) (ex_bind (ex_ps n)) = False"
  by (simp add: ex_ps_simps)

lemma ex_MapInPlace:
  "MapInPlace ex_bind [((Some 0, 0), [ex_ps 0, ex_ps 1])]
     = [((Some 0, 0), [ex_ps 1, ex_bind (ex_ps 0)])]"
proof -
  have c: "MapInPlace_range ex_bind [((Some 0, 0), [ex_ps 0, ex_ps 1])]
             [((Some 0, 0), [ex_ps 0, ex_ps 1])] []
           = ([((Some 0, 0), [ex_ps 1])], [ex_bind (ex_ps 0)])"
    by (simp add: MapInPlace_slice.simps ex_ps_simps)
  have d: "Add [((Some 0, 0), [ex_ps 1])] (ex_bind (ex_ps 0))
           = [((Some 0, 0), [ex_ps 1, ex_bind (ex_ps 0)])]"
    by (simp add: Add_def ex_ps_simps)
  from c d show ?thesis by (simp add: MapInPlace_def)
qed

text \<open>
  Claim C1.  The doc comment of \<open>MapInPlace\<close> says that it applies \<open>f\<close> to each
  PathState in the set and replaces it with \<open>f\<close>'s result.  The set below holds two
  states in one bucket, and \<open>f\<close> changes both.  The first is removed by moving the last
  one into its slot; the index then moves past that slot, so the loop ends with the
  second state still stored as it was and \<open>f\<close>'s image of it absent.
\<close>

theorem MapInPlace_skips_moved_state:
  "Add (Add NewPathStateSet (ex_ps 0)) (ex_ps 1) = [((Some 0, 0), [ex_ps 0, ex_ps 1])] \<and>
   PathState_Equal (ex_ps 1) (ex_bind (ex_ps 1)) = False \<and>
   MapInPlace ex_bind [((Some 0, 0), [ex_ps 0, ex_ps 1])]
     = [((Some 0, 0), [ex_ps 1, ex_bind (ex_ps 0)])]"
  by (simp add: ex_Add_two ex_not_Equal_bind ex_MapInPlace)

section \<open>Set semantics of PathStateSet\<close>

text \<open>
  The comment in \<open>PathState.Equal\<close> records that the block determines the mask.  With
  that, and with locksets whose bits and stacks agree, \<open>Equal\<close> is symmetric.  \<open>deps\<close>
  is the liveness table that supplies the mask of each block.
\<close>

definition wf_ps :: "(nat option \<Rightarrow> nat set) \<Rightarrow> PathState \<Rightarrow> bool" where
  "wf_ps deps ps = (integrity (lockSet ps) \<and> mask_ps ps = deps (block ps))"

definition stored :: "PathStateSet \<Rightarrow> PathState list" where
  "stored m = concat (map snd m)"

definition bucket_ok :: "(nat option \<Rightarrow> nat set) \<Rightarrow> pathStateKey \<Rightarrow> PathState list \<Rightarrow> bool" where
  "bucket_ok deps k sl =
     ((\<forall>p \<in> set sl. PathState_HashKey p = k \<and> wf_ps deps p) \<and> distinct sl \<and>
      (\<forall>p \<in> set sl. \<forall>q \<in> set sl. p \<noteq> q \<longrightarrow> \<not> PathState_Equal p q))"

definition set_inv :: "(nat option \<Rightarrow> nat set) \<Rightarrow> PathStateSet \<Rightarrow> bool" where
  "set_inv deps m = (distinct (map fst m) \<and> (\<forall>(k, sl) \<in> set m. bucket_ok deps k sl))"

lemma Equal_refl: "Equal a a"
  by (simp add: Equal_def)

lemma Equal_sym:
  assumes "integrity a" and "integrity b" and "Equal a b"
  shows "Equal b a"
proof -
  from assms(3) have s: "sp a = sp b" and b: "bits a = bits b"
    and st: "\<forall>k \<in> dom (stacks a). stack_at (stacks b) k = stack_at (stacks a) k"
    by (auto simp: Equal_def split: if_splits)
  have "dom (stacks a) = dom (stacks b)"
    using assms(1,2) b by (auto simp: integrity_def)
  with s b st show ?thesis by (simp add: Equal_def)
qed

lemma PathState_Equal_refl: "PathState_Equal p p"
  by (simp add: PathState_Equal_def Equal_refl EqualAt_def)

lemma PathState_Equal_sym:
  assumes "wf_ps deps p" and "wf_ps deps q" and "PathState_Equal p q"
  shows "PathState_Equal q p"
proof -
  from assms(3) have b: "block p = block q" and l: "Equal (lockSet p) (lockSet q)"
    and e: "EqualAt (vs p) (vs q) (mask_ps p)"
    by (simp_all add: PathState_Equal_def)
  have m: "mask_ps q = mask_ps p" using assms(1,2) b by (simp add: wf_ps_def)
  have "Equal (lockSet q) (lockSet p)"
    using assms(1,2) l by (auto simp: wf_ps_def intro: Equal_sym)
  moreover have "EqualAt (vs q) (vs p) (mask_ps q)"
    using e m by (auto simp: EqualAt_def)
  ultimately show ?thesis using b by (simp add: PathState_Equal_def)
qed

lemma PathState_Equal_HashKey:
  "PathState_Equal p q \<Longrightarrow> PathState_HashKey p = PathState_HashKey q"
  by (auto simp: PathState_Equal_def PathState_HashKey_def HashKey_def Equal_def split: if_splits)

lemma bucket_eq:
  "distinct (map fst m) \<Longrightarrow> (k, sl) \<in> set m \<Longrightarrow> bucket m k = sl"
  by (simp add: bucket_def)

lemma bucket_cases:
  "bucket m k = [] \<or> (k, bucket m k) \<in> set m"
  by (auto simp: bucket_def split: option.splits dest: map_of_SomeD)

lemma bucket_ok_bucket:
  "set_inv deps m \<Longrightarrow> bucket_ok deps k (bucket m k)"
  using bucket_cases [of m k] by (auto simp: set_inv_def bucket_ok_def)

lemma set_inv_update:
  assumes "set_inv deps m" and "bucket_ok deps k sl"
  shows "set_inv deps (AList.update k sl m)"
proof -
  have d: "distinct (map fst (AList.update k sl m))"
    using assms(1) by (simp add: set_inv_def distinct_update)
  have "bucket_ok deps k' sl'" if "(k', sl') \<in> set (AList.update k sl m)" for k' sl'
  proof -
    from that d have "map_of (AList.update k sl m) k' = Some sl'" by simp
    then have "((map_of m)(k \<mapsto> sl)) k' = Some sl'" by (simp add: update_conv')
    then have "(k' = k \<and> sl' = sl) \<or> map_of m k' = Some sl'" by (auto split: if_splits)
    then show ?thesis
      using assms by (auto simp: set_inv_def dest: map_of_SomeD)
  qed
  with d show ?thesis by (auto simp: set_inv_def)
qed

lemma set_inv_delete:
  assumes "set_inv deps m"
  shows "set_inv deps (AList.delete k m)"
proof -
  have "set (AList.delete k m) \<subseteq> set m" by (auto simp: AList.delete_eq)
  moreover have "distinct (map fst (AList.delete k m))"
    using assms by (simp add: set_inv_def distinct_delete)
  ultimately show ?thesis using assms by (auto simp: set_inv_def)
qed

lemma bucket_ok_snoc:
  assumes ok: "bucket_ok deps k sl" and wf: "wf_ps deps ps" and key: "PathState_HashKey ps = k"
    and ne: "\<forall>p \<in> set sl. \<not> PathState_Equal p ps"
  shows "bucket_ok deps k (sl @ [ps])"
proof -
  have notin: "ps \<notin> set sl" using ne PathState_Equal_refl by blast
  have rev: "\<not> PathState_Equal ps p" if "p \<in> set sl" for p
  proof
    assume e: "PathState_Equal ps p"
    have "wf_ps deps p" using ok that by (simp add: bucket_ok_def)
    from PathState_Equal_sym [OF wf this e] ne that show False by blast
  qed
  have a: "\<forall>p \<in> set (sl @ [ps]). PathState_HashKey p = k \<and> wf_ps deps p"
    using ok wf key by (simp add: bucket_ok_def)
  have b: "distinct (sl @ [ps])" using ok notin by (simp add: bucket_ok_def)
  have c: "\<not> PathState_Equal p q" if "p \<in> set (sl @ [ps])" "q \<in> set (sl @ [ps])" "p \<noteq> q" for p q
  proof (cases "p = ps")
    case True
    with that have "q \<in> set sl" by auto
    with True rev show ?thesis by simp
  next
    case False
    with that(1) have p: "p \<in> set sl" by simp
    show ?thesis
    proof (cases "q = ps")
      case True
      with p ne show ?thesis by simp
    next
      case False
      with that(2) have "q \<in> set sl" by simp
      with p that(3) ok show ?thesis by (simp add: bucket_ok_def)
    qed
  qed
  from a b c show ?thesis unfolding bucket_ok_def by blast
qed

lemma set_inv_Add:
  assumes inv: "set_inv deps m" and wf: "wf_ps deps ps"
  shows "set_inv deps (Add m ps)"
proof (cases "list_ex (\<lambda>p. PathState_Equal p ps) (bucket m (PathState_HashKey ps))")
  case True
  then show ?thesis using inv by (simp add: Add_def Let_def)
next
  case False
  let ?k = "PathState_HashKey ps"
  have ok: "bucket_ok deps ?k (bucket m ?k)" using inv by (rule bucket_ok_bucket)
  have ne: "\<forall>p \<in> set (bucket m ?k). \<not> PathState_Equal p ps"
    using False by (simp add: list_ex_iff)
  have "bucket_ok deps ?k (bucket m ?k @ [ps])"
    using ok wf refl ne by (rule bucket_ok_snoc)
  then have "set_inv deps (AList.update ?k (bucket m ?k @ [ps]) m)"
    using inv by (simp add: set_inv_update)
  with False show ?thesis by (simp add: Add_def Let_def)
qed

lemma set_inv_foldl_Add:
  "set_inv deps m \<Longrightarrow> \<forall>p \<in> set ps. wf_ps deps p \<Longrightarrow> set_inv deps (foldl Add m ps)"
  by (induction ps arbitrary: m) (simp_all add: set_inv_Add)


lemma swap_remove_nth:
  assumes "i < length sl" and "j < length sl - 1"
  shows "take (length (sl[i := sl ! (length sl - 1)]) - 1) (sl[i := sl ! (length sl - 1)]) ! j
           = (if j = i then sl ! (length sl - 1) else sl ! j)"
  using assms by (simp add: nth_list_update)

lemma swap_remove_length:
  "length (take (length (sl[i := sl ! (length sl - 1)]) - 1) (sl[i := sl ! (length sl - 1)]))
     = length sl - 1"
  by simp

lemma bucket_ok_remove:
  assumes ok: "bucket_ok deps k sl" and i: "i < length sl"
  shows "bucket_ok deps k
           (take (length (sl[i := sl ! (length sl - 1)]) - 1) (sl[i := sl ! (length sl - 1)]))"
proof -
  let ?r = "take (length (sl[i := sl ! (length sl - 1)]) - 1) (sl[i := sl ! (length sl - 1)])"
  have len: "length ?r = length sl - 1" by simp
  have nth: "?r ! j = (if j = i then sl ! (length sl - 1) else sl ! j)" if "j < length sl - 1" for j
    using i that by (rule swap_remove_nth)
  have d0: "distinct sl" using ok by (simp add: bucket_ok_def)
  have s: "set ?r \<subseteq> set sl"
  proof
    fix x assume "x \<in> set ?r"
    then obtain j where j: "j < length ?r" "?r ! j = x" by (auto simp: in_set_conv_nth)
    then have jl: "j < length sl - 1" using len by simp
    have "sl ! (length sl - 1) \<in> set sl" "sl ! j \<in> set sl" using i jl by simp_all
    then have "(if j = i then sl ! (length sl - 1) else sl ! j) \<in> set sl" by simp
    then show "x \<in> set sl"
      using nth [OF jl] j(2) by simp
  qed
  have d: "distinct ?r"
    unfolding distinct_conv_nth
  proof (intro allI impI)
    fix a b assume a: "a < length ?r" and b: "b < length ?r" and ab: "a \<noteq> b"
    then have al: "a < length sl - 1" and bl: "b < length sl - 1" using len by simp_all
    have "(if a = i then sl ! (length sl - 1) else sl ! a)
            \<noteq> (if b = i then sl ! (length sl - 1) else sl ! b)"
    proof -
      have neq: "sl ! x \<noteq> sl ! y" if "x < length sl" "y < length sl" "x \<noteq> y" for x y
        using d0 that by (simp add: nth_eq_iff_index_eq)
      have "sl ! (length sl - 1) \<noteq> sl ! b" if "a = i" "b \<noteq> i"
        using neq [of "length sl - 1" b] bl by simp
      moreover have "sl ! a \<noteq> sl ! (length sl - 1)" if "a \<noteq> i" "b = i"
        using neq [of a "length sl - 1"] al by simp
      moreover have "sl ! a \<noteq> sl ! b"
        using neq [of a b] al bl ab by simp
      ultimately show ?thesis using ab by simp
    qed
    then show "?r ! a \<noteq> ?r ! b" using nth [OF al] nth [OF bl] by simp
  qed
  have "\<forall>p \<in> set ?r. PathState_HashKey p = k \<and> wf_ps deps p"
    using s ok unfolding bucket_ok_def by blast
  moreover have "\<forall>p \<in> set ?r. \<forall>q \<in> set ?r. p \<noteq> q \<longrightarrow> \<not> PathState_Equal p q"
    using s ok unfolding bucket_ok_def by blast
  ultimately show ?thesis using d unfolding bucket_ok_def by simp
qed

lemma MapInPlace_slice_inv:
  "\<forall>p. wf_ps deps p \<longrightarrow> wf_ps deps (f p) \<Longrightarrow>
   set_inv deps m \<Longrightarrow> bucket_ok deps k slice \<Longrightarrow> \<forall>p \<in> set toAdd. wf_ps deps p \<Longrightarrow>
     set_inv deps (fst (MapInPlace_slice f k m slice i toAdd)) \<and>
     (\<forall>p \<in> set (snd (MapInPlace_slice f k m slice i toAdd)). wf_ps deps p)"
proof (induction f k m slice i toAdd rule: MapInPlace_slice.induct)
  case (1 f hashKey m slice i toAdd)
  note pres = "1.prems"(1) and inv = "1.prems"(2) and ok = "1.prems"(3) and wf = "1.prems"(4)
  show ?case
  proof (cases "i < length slice")
    case False
    then show ?thesis
      using inv wf by (simp add: MapInPlace_slice.simps [of f hashKey m slice i toAdd])
  next
    case True
    show ?thesis
    proof (cases "PathState_Equal (slice ! i) (f (slice ! i))")
      case eq: True
      have "MapInPlace_slice f hashKey m slice i toAdd
              = MapInPlace_slice f hashKey m slice (i + 1) toAdd"
        using True eq by (simp add: MapInPlace_slice.simps [of f hashKey m slice i toAdd])
      moreover note "1.IH"(1) [OF True refl eq pres inv ok wf]
      ultimately show ?thesis by simp
    next
      case neq: False
      define slice1 where "slice1 = slice[i := slice ! (length slice - 1)]"
      define slice2 where "slice2 = take (length slice1 - 1) slice1"
      define m2 where "m2 = (if length slice2 = 0 then AList.delete hashKey m
                              else AList.update hashKey slice2 m)"
      have step: "MapInPlace_slice f hashKey m slice i toAdd
              = MapInPlace_slice f hashKey m2 slice2 (i + 1) (toAdd @ [f (slice ! i)])"
        using True neq
        by (simp add: MapInPlace_slice.simps [of f hashKey m slice i toAdd]
            Let_def slice1_def slice2_def m2_def)
      have ok2: "bucket_ok deps hashKey slice2"
        unfolding slice2_def slice1_def using ok True by (rule bucket_ok_remove)
      have inv2: "set_inv deps m2"
        unfolding m2_def using inv ok2 by (simp add: set_inv_delete set_inv_update)
      have "wf_ps deps (slice ! i)"
        using ok True by (simp add: bucket_ok_def)
      then have wf2: "\<forall>p \<in> set (toAdd @ [f (slice ! i)]). wf_ps deps p"
        using wf pres by simp
      note "1.IH"(2) [OF True refl neq slice1_def slice2_def m2_def pres inv2 ok2 wf2]
      with step show ?thesis by simp
    qed
  qed
qed

lemma MapInPlace_range_inv:
  assumes pres: "\<forall>p. wf_ps deps p \<longrightarrow> wf_ps deps (f p)"
  shows "set_inv deps m \<Longrightarrow> \<forall>(k, sl) \<in> set es. bucket_ok deps k sl \<Longrightarrow>
         \<forall>p \<in> set toAdd. wf_ps deps p \<Longrightarrow>
         set_inv deps (fst (MapInPlace_range f es m toAdd)) \<and>
         (\<forall>p \<in> set (snd (MapInPlace_range f es m toAdd)). wf_ps deps p)"
proof (induction es arbitrary: m toAdd)
  case Nil
  then show ?case by simp
next
  case (Cons e es)
  obtain k sl where e: "e = (k, sl)" by (cases e)
  obtain m2 toAdd2 where r: "MapInPlace_slice f k m sl 0 toAdd = (m2, toAdd2)"
    by (cases "MapInPlace_slice f k m sl 0 toAdd")
  have ok: "bucket_ok deps k sl" using Cons.prems(2) e by simp
  from MapInPlace_slice_inv [OF pres Cons.prems(1) ok Cons.prems(3), of 0] r
  have i2: "set_inv deps m2" and w2: "\<forall>p \<in> set toAdd2. wf_ps deps p" by simp_all
  have rest: "\<forall>(k, sl) \<in> set es. bucket_ok deps k sl" using Cons.prems(2) by simp
  from Cons.IH [OF i2 rest w2] e r show ?case by simp
qed

lemma set_inv_MapInPlace:
  assumes "set_inv deps m" and "\<forall>p. wf_ps deps p \<longrightarrow> wf_ps deps (f p)"
  shows "set_inv deps (MapInPlace f m)"
proof -
  obtain m2 toAdd where r: "MapInPlace_range f m m [] = (m2, toAdd)"
    by (cases "MapInPlace_range f m m []")
  have "\<forall>(k, sl) \<in> set m. bucket_ok deps k sl" using assms(1) by (simp add: set_inv_def)
  from MapInPlace_range_inv [OF assms(2) assms(1) this, of "[]"] r
  have "set_inv deps m2" and "\<forall>p \<in> set toAdd. wf_ps deps p" by simp_all
  then have "set_inv deps (foldl Add m2 toAdd)" by (rule set_inv_foldl_Add)
  with r show ?thesis by (simp add: MapInPlace_def)
qed

lemma set_inv_New: "set_inv deps NewPathStateSet"
  by (simp add: set_inv_def NewPathStateSet_def)

lemma stored_wf: "set_inv deps m \<Longrightarrow> p \<in> set (stored m) \<Longrightarrow> wf_ps deps p"
  by (auto simp: set_inv_def stored_def bucket_ok_def)

lemma set_inv_FlatMap_loop:
  "set_inv deps out \<Longrightarrow> \<forall>p \<in> set ps. \<forall>q \<in> set (g p []). wf_ps deps q \<Longrightarrow>
   set_inv deps (foldl (\<lambda>out ps. foldl Add out (g ps [])) out ps)"
proof (induction ps arbitrary: out)
  case Nil
  then show ?case by simp
next
  case (Cons p ps)
  have "set_inv deps (foldl Add out (g p []))"
    using Cons.prems by (simp add: set_inv_foldl_Add)
  from Cons.IH [OF this] Cons.prems(2) show ?case by simp
qed

lemma set_inv_FlatMap:
  assumes "set_inv deps m" and "\<forall>p. wf_ps deps p \<longrightarrow> (\<forall>q \<in> set (g p []). wf_ps deps q)"
  shows "set_inv deps (FlatMap g m)"
proof -
  have "\<forall>p \<in> set (concat (map snd m)). \<forall>q \<in> set (g p []). wf_ps deps q"
  proof
    fix p assume "p \<in> set (concat (map snd m))"
    then have "wf_ps deps p" using stored_wf [OF assms(1)] by (simp add: stored_def)
    with assms(2) show "\<forall>q \<in> set (g p []). wf_ps deps q" by blast
  qed
  with set_inv_New show ?thesis
    unfolding FlatMap_def by (rule set_inv_FlatMap_loop)
qed

text \<open>No two stored states are \<open>Equal\<close>, read over the positions of the stored states.\<close>

definition no_equal_pair :: "PathStateSet \<Rightarrow> bool" where
  "no_equal_pair m =
     (\<forall>i < length (stored m). \<forall>j < length (stored m).
        i \<noteq> j \<longrightarrow> \<not> PathState_Equal (stored m ! i) (stored m ! j))"

lemma stored_key:
  assumes "set_inv deps m" and "p \<in> set (stored m)"
  shows "\<exists>sl. (PathState_HashKey p, sl) \<in> set m \<and> p \<in> set sl"
proof -
  from assms(2) obtain e where e: "e \<in> set m" "p \<in> set (snd e)" by (auto simp: stored_def)
  obtain k sl where ks: "e = (k, sl)" by (cases e)
  with e assms(1) have "bucket_ok deps k sl" by (auto simp: set_inv_def)
  with e ks have "PathState_HashKey p = k" by (simp add: bucket_ok_def)
  with e ks show ?thesis by auto
qed

lemma set_inv_tl: "set_inv deps (e # m) \<Longrightarrow> set_inv deps m"
  by (simp add: set_inv_def)

lemma set_inv_sorted_wrt:
  "set_inv deps m \<Longrightarrow>
   sorted_wrt (\<lambda>p q. \<not> PathState_Equal p q \<and> \<not> PathState_Equal q p) (stored m)"
proof (induction m)
  case Nil
  then show ?case by (simp add: stored_def)
next
  case (Cons e m)
  obtain k sl where e: "e = (k, sl)" by (cases e)
  have ok: "bucket_ok deps k sl" using Cons.prems e by (simp add: set_inv_def)
  have inv: "set_inv deps m" using Cons.prems by (rule set_inv_tl)
  have a: "sorted_wrt (\<lambda>p q. \<not> PathState_Equal p q \<and> \<not> PathState_Equal q p) sl"
    unfolding sorted_wrt_iff_nth_less
  proof (intro allI impI)
    fix i j assume ij: "i < j" "j < length sl"
    then have "sl ! i \<noteq> sl ! j" using ok by (simp add: bucket_ok_def nth_eq_iff_index_eq)
    moreover have "sl ! i \<in> set sl" "sl ! j \<in> set sl" using ij by simp_all
    ultimately show "\<not> PathState_Equal (sl ! i) (sl ! j) \<and> \<not> PathState_Equal (sl ! j) (sl ! i)"
      using ok unfolding bucket_ok_def by metis
  qed
  have c: "\<not> PathState_Equal p q \<and> \<not> PathState_Equal q p"
    if "p \<in> set sl" "q \<in> set (stored m)" for p q
  proof -
    have kp: "PathState_HashKey p = k" using ok that(1) by (simp add: bucket_ok_def)
    from stored_key [OF inv that(2)] obtain sl' where "(PathState_HashKey q, sl') \<in> set m" by blast
    then have "fst (PathState_HashKey q, sl') \<in> fst ` set m" by (rule imageI)
    then have qm: "PathState_HashKey q \<in> fst ` set m" by simp
    have nk: "k \<notin> fst ` set m" using Cons.prems e by (simp add: set_inv_def)
    have "PathState_HashKey p \<noteq> PathState_HashKey q"
    proof
      assume "PathState_HashKey p = PathState_HashKey q"
      with kp have "PathState_HashKey q = k" by simp
      with qm nk show False by simp
    qed
    then show ?thesis using PathState_Equal_HashKey by metis
  qed
  have "stored (e # m) = sl @ stored m" using e by (simp add: stored_def)
  with a Cons.IH [OF inv] c show ?case by (simp add: sorted_wrt_append)
qed

lemma set_inv_no_equal_pair:
  assumes "set_inv deps m"
  shows "no_equal_pair m"
proof -
  let ?P = "\<lambda>p q. \<not> PathState_Equal p q \<and> \<not> PathState_Equal q p"
  have s: "\<forall>i j. i < j \<longrightarrow> j < length (stored m) \<longrightarrow> ?P (stored m ! i) (stored m ! j)"
    using set_inv_sorted_wrt [OF assms] by (simp add: sorted_wrt_iff_nth_less)
  show ?thesis
    unfolding no_equal_pair_def
  proof (intro allI impI)
    fix i j assume "i < length (stored m)" "j < length (stored m)" "i \<noteq> j"
    then consider "i < j" | "j < i" by linarith
    then show "\<not> PathState_Equal (stored m ! i) (stored m ! j)"
    proof cases
      case 1 with s \<open>j < length (stored m)\<close> show ?thesis by blast
    next
      case 2 with s \<open>i < length (stored m)\<close> show ?thesis by blast
    qed
  qed
qed

lemma Add_stored_Equal:
  assumes inv: "set_inv deps m" and q: "q \<in> set (stored m)" and e: "PathState_Equal q ps"
  shows "Add m ps = m"
proof -
  from stored_key [OF inv q] obtain sl where sl: "(PathState_HashKey q, sl) \<in> set m" "q \<in> set sl"
    by blast
  have "PathState_HashKey q = PathState_HashKey ps" using e by (rule PathState_Equal_HashKey)
  with sl have "bucket m (PathState_HashKey ps) = sl"
    using inv by (simp add: set_inv_def bucket_eq)
  with sl(2) e have "list_ex (\<lambda>p. PathState_Equal p ps) (bucket m (PathState_HashKey ps))"
    by (auto simp: list_ex_iff)
  then show ?thesis by (simp add: Add_def Let_def)
qed

lemma stored_same_key:
  "set_inv deps m \<Longrightarrow>
   length (filter (\<lambda>q. PathState_HashKey q = key) (stored m)) = length (bucket m key)"
proof (induction m)
  case Nil
  then show ?case by (simp add: stored_def bucket_def)
next
  case (Cons e m)
  obtain k sl where e: "e = (k, sl)" by (cases e)
  have ok: "bucket_ok deps k sl" using Cons.prems e by (simp add: set_inv_def)
  have inv: "set_inv deps m" using Cons.prems by (rule set_inv_tl)
  have st: "stored (e # m) = sl @ stored m" using e by (simp add: stored_def)
  have keys: "\<forall>p \<in> set sl. PathState_HashKey p = k" using ok by (simp add: bucket_ok_def)
  show ?case
  proof (cases "k = key")
    case True
    have nk: "k \<notin> fst ` set m" using Cons.prems e by (simp add: set_inv_def)
    have "\<forall>q \<in> set (stored m). PathState_HashKey q \<noteq> key"
    proof
      fix q assume "q \<in> set (stored m)"
      from stored_key [OF inv this] obtain sl' where "(PathState_HashKey q, sl') \<in> set m" by blast
      then have "fst (PathState_HashKey q, sl') \<in> fst ` set m" by (rule imageI)
      then have qm: "PathState_HashKey q \<in> fst ` set m" by simp
      show "PathState_HashKey q \<noteq> key"
      proof
        assume "PathState_HashKey q = key"
        with qm nk True show False by simp
      qed
    qed
    then have "filter (\<lambda>q. PathState_HashKey q = key) (stored m) = []"
      by (simp add: filter_empty_conv)
    moreover have "filter (\<lambda>q. PathState_HashKey q = key) sl = sl"
      using keys True by (simp add: filter_id_conv)
    moreover have "bucket (e # m) key = sl" using e True by (simp add: bucket_def)
    ultimately show ?thesis using st by simp
  next
    case False
    have "filter (\<lambda>q. PathState_HashKey q = key) sl = []"
      using keys False by (simp add: filter_empty_conv)
    moreover have "bucket (e # m) key = bucket m key" using e False by (simp add: bucket_def)
    ultimately show ?thesis using st Cons.IH [OF inv] by simp
  qed
qed

text \<open>
  The sets that \<open>NewPathStateSet\<close>, \<open>Add\<close>, \<open>MapInPlace\<close> and \<open>FlatMap\<close> build from
  well-formed states.  The last rule reorders the entries of the association list: a Go
  map has no order, and \<^verbatim>\<open>range\<close> may visit it in any.
\<close>

inductive built :: "(nat option \<Rightarrow> nat set) \<Rightarrow> PathStateSet \<Rightarrow> bool" for deps where
  b_new: "built deps NewPathStateSet"
| b_add: "built deps m \<Longrightarrow> wf_ps deps ps \<Longrightarrow> built deps (Add m ps)"
| b_map: "built deps m \<Longrightarrow> \<forall>p. wf_ps deps p \<longrightarrow> wf_ps deps (f p) \<Longrightarrow> built deps (MapInPlace f m)"
| b_flat: "built deps m \<Longrightarrow> \<forall>p. wf_ps deps p \<longrightarrow> (\<forall>q \<in> set (g p []). wf_ps deps q) \<Longrightarrow>
           built deps (FlatMap g m)"
| b_order: "built deps m \<Longrightarrow> distinct (map fst m2) \<Longrightarrow> set m2 = set m \<Longrightarrow> built deps m2"

lemma built_set_inv: "built deps m \<Longrightarrow> set_inv deps m"
proof (induction rule: built.induct)
  case b_new
  show ?case by (rule set_inv_New)
next
  case (b_add m ps)
  then show ?case by (simp add: set_inv_Add)
next
  case (b_map m f)
  then show ?case by (simp add: set_inv_MapInPlace)
next
  case (b_flat m g)
  then show ?case by (simp add: set_inv_FlatMap)
next
  case (b_order m m2)
  then show ?case by (simp add: set_inv_def)
qed

text \<open>
  Claim C10.  For every PathStateSet built by \<open>Add\<close>, \<open>MapInPlace\<close> and \<open>FlatMap\<close>:
  adding a state \<open>Equal\<close> to a stored one leaves the set unchanged, no two stored states
  are \<open>Equal\<close>, and the count that \<open>Contains\<close> returns is the number of stored states
  with the hash key of the argument.
\<close>

theorem PathStateSet_set_semantics:
  assumes "built deps m"
  shows "((\<exists>q \<in> set (stored m). PathState_Equal q ps) \<longrightarrow> Add m ps = m) \<and>
         no_equal_pair m \<and>
         snd (Contains m ps)
           = length (filter (\<lambda>q. PathState_HashKey q = PathState_HashKey ps) (stored m))"
proof -
  have inv: "set_inv deps m" using assms by (rule built_set_inv)
  have "(\<exists>q \<in> set (stored m). PathState_Equal q ps) \<longrightarrow> Add m ps = m"
    using Add_stored_Equal [OF inv] by blast
  moreover have "no_equal_pair m" using inv by (rule set_inv_no_equal_pair)
  moreover have "snd (Contains m ps) = length (bucket m (PathState_HashKey ps))"
    by (simp add: Contains_def Let_def)
  ultimately show ?thesis using stored_same_key [OF inv] by simp
qed


definition ex_deps :: "nat option \<Rightarrow> nat set" where
  "ex_deps b = {1, 2}"

lemma ex_wf: "wf_ps ex_deps (ex_ps n)"
  by (simp add: wf_ps_def ex_deps_def ex_ps_def integrity_new)

lemma ex_bind_wf: "\<forall>p. wf_ps ex_deps p \<longrightarrow> wf_ps ex_deps (ex_bind p)"
  by (simp add: wf_ps_def ex_deps_def ex_bind_def)

lemma ex_built: "built ex_deps [((Some 0, 0), [ex_ps 1, ex_bind (ex_ps 0)])]"
proof -
  have "built ex_deps (Add (Add NewPathStateSet (ex_ps 0)) (ex_ps 1))"
    by (intro b_add b_new ex_wf)
  then have "built ex_deps (MapInPlace ex_bind (Add (Add NewPathStateSet (ex_ps 0)) (ex_ps 1)))"
    using ex_bind_wf by (rule b_map)
  then show ?thesis by (simp add: ex_Add_two ex_MapInPlace)
qed

theorem PathStateSet_set_semantics_witness:
  "built ex_deps [((Some 0, 0), [ex_ps 1, ex_bind (ex_ps 0)])] \<and>
   Add [((Some 0, 0), [ex_ps 1, ex_bind (ex_ps 0)])] (ex_ps 1)
     = [((Some 0, 0), [ex_ps 1, ex_bind (ex_ps 0)])] \<and>
   no_equal_pair [((Some 0, 0), [ex_ps 1, ex_bind (ex_ps 0)])] \<and>
   snd (Contains [((Some 0, 0), [ex_ps 1, ex_bind (ex_ps 0)])] (ex_ps 1)) = 2"
proof -
  have e: "PathState_Equal (ex_ps 1) (ex_ps 1)" by (rule PathState_Equal_refl)
  have k: "PathState_HashKey (ex_bind (ex_ps 0)) = PathState_HashKey (ex_ps 1)"
    by (simp add: ex_ps_simps)
  from PathStateSet_set_semantics [OF ex_built, of "ex_ps 1"] ex_built e k
  show ?thesis by (simp add: stored_def)
qed

section \<open>walkBlock: the visited set and the explosion guard\<close>

datatype warning = TooManyStates nat | ExternalFunction nat | NoCallGraph nat

text \<open>
  The head of \<open>walkBlock\<close>, up to \<^verbatim>\<open>blockCache.Add(enterPathState)\<close>.  \<open>ifDeps\<close> is
  \<^verbatim>\<open>s.fns[f].ifDeps\<close>, indexed by the number of the block.  The function returns
  \<open>Cached\<close> or \<open>Trimmed\<close> where \<open>walkBlock\<close> returns at once, the second with the
  warning it prints, and \<open>Proceed\<close> where \<open>walkBlock\<close> goes on to the instructions and
  the successors of the block; with the outcome comes the visited set.
\<close>

datatype outcome = Cached | Trimmed | Proceed

definition walkBlock_enter ::
  "(nat \<Rightarrow> nat set) \<Rightarrow> PathStateSet \<Rightarrow> PathState
     \<Rightarrow> error + (outcome \<times> PathStateSet \<times> warning list)" where
  "walkBlock_enter ifDeps blockCache enterPathState =
     (case block enterPathState of
        None \<Rightarrow> Inl NilDereference
      | Some b \<Rightarrow>
          (let eps = enterPathState\<lparr>mask_ps := ifDeps b\<rparr>;
               (cached, similar) = Contains blockCache eps
           in if cached then Inr (Cached, blockCache, [])
              else if similar > 10 then Inr (Trimmed, blockCache, [TooManyStates b])
              else Inr (Proceed, Add blockCache eps, [])))"

text \<open>Nothing else in \<open>walkBlock\<close> writes the visited set, so over one walk of a function
  the set goes through the entries of \<open>walkBlock\<close> one after the other; a panic ends the
  walk.\<close>

fun enter_all :: "(nat \<Rightarrow> nat set) \<Rightarrow> PathStateSet \<Rightarrow> PathState list \<Rightarrow> PathStateSet" where
  "enter_all ifDeps blockCache [] = blockCache"
| "enter_all ifDeps blockCache (ps # pss) =
     (case walkBlock_enter ifDeps blockCache ps of
        Inl e \<Rightarrow> blockCache
      | Inr (oc, blockCache2, ws) \<Rightarrow> enter_all ifDeps blockCache2 pss)"

lemma bucket_update:
  "bucket (AList.update k v m) k' = (if k' = k then v else bucket m k')"
  by (simp add: bucket_def update_conv')

lemma length_bucket_Add:
  "length (bucket (Add m ps) key)
     \<le> (if key = PathState_HashKey ps then Suc (length (bucket m key)) else length (bucket m key))"
  by (simp add: Add_def Let_def bucket_update)

lemma walkBlock_enter_cases:
  assumes "block ps = Some b"
  shows "walkBlock_enter ifDeps blockCache ps =
     (if fst (Contains blockCache (ps\<lparr>mask_ps := ifDeps b\<rparr>)) then Inr (Cached, blockCache, [])
      else if snd (Contains blockCache (ps\<lparr>mask_ps := ifDeps b\<rparr>)) > 10
        then Inr (Trimmed, blockCache, [TooManyStates b])
      else Inr (Proceed, Add blockCache (ps\<lparr>mask_ps := ifDeps b\<rparr>), []))"
  using assms by (simp add: walkBlock_enter_def Let_def split: prod.splits)

lemma walkBlock_enter_bound:
  assumes bnd: "\<forall>key. length (bucket blockCache key) \<le> 11"
    and w: "walkBlock_enter ifDeps blockCache ps = Inr (oc, blockCache2, ws)"
  shows "\<forall>key. length (bucket blockCache2 key) \<le> 11"
proof (cases "block ps")
  case None
  with w show ?thesis by (simp add: walkBlock_enter_def)
next
  case (Some b)
  define eps where "eps = ps\<lparr>mask_ps := ifDeps b\<rparr>"
  note c = walkBlock_enter_cases [OF Some, of ifDeps blockCache, folded eps_def]
  show ?thesis
  proof (cases "fst (Contains blockCache eps) \<or> snd (Contains blockCache eps) > 10")
    case True
    then have "blockCache2 = blockCache" using w c by (auto split: if_splits)
    with bnd show ?thesis by simp
  next
    case False
    then have c2: "blockCache2 = Add blockCache eps" using w c by (auto split: if_splits)
    have "snd (Contains blockCache eps) = length (bucket blockCache (PathState_HashKey eps))"
      by (simp add: Contains_def Let_def)
    with False have le: "length (bucket blockCache (PathState_HashKey eps)) \<le> 10" by simp
    show ?thesis
    proof
      fix key
      have "length (bucket blockCache key) \<le> 11" by (rule bnd [rule_format])
      with le length_bucket_Add [of blockCache eps key]
      show "length (bucket blockCache2 key) \<le> 11"
        unfolding c2 by (cases "key = PathState_HashKey eps") simp_all
    qed
  qed
qed

lemma enter_all_bound:
  "\<forall>key. length (bucket blockCache key) \<le> 11 \<Longrightarrow>
   \<forall>key. length (bucket (enter_all ifDeps blockCache pss) key) \<le> 11"
proof (induction pss arbitrary: blockCache)
  case Nil
  then show ?case by simp
next
  case (Cons ps pss)
  show ?case
  proof (cases "walkBlock_enter ifDeps blockCache ps")
    case (Inl e)
    with Cons.prems show ?thesis by simp
  next
    case (Inr r)
    obtain oc c2 ws where r: "r = (oc, c2, ws)" by (cases r)
    have "\<forall>key. length (bucket c2 key) \<le> 11"
      using Cons.prems Inr [unfolded r] by (rule walkBlock_enter_bound)
    from Cons.IH [OF this] Inr r show ?thesis by simp
  qed
qed

text \<open>
  Claim C4, as amended.  The guard is \<^verbatim>\<open>similar > 10\<close>, tested on the bucket as it is
  before the state is added.  An entry that is not cached is trimmed, with the warning
  and with the visited set unchanged, when its bucket already holds more than ten states,
  and is added otherwise; so a bucket of the visited set never holds more than eleven
  states.
\<close>

theorem walkBlock_explosion_guard:
  "(\<forall>key. length (bucket (enter_all ifDeps NewPathStateSet pss) key) \<le> 11) \<and>
   (block ps = Some b \<and> Contains blockCache (ps\<lparr>mask_ps := ifDeps b\<rparr>) = (False, similar) \<longrightarrow>
      walkBlock_enter ifDeps blockCache ps =
        (if similar > 10 then Inr (Trimmed, blockCache, [TooManyStates b])
         else Inr (Proceed, Add blockCache (ps\<lparr>mask_ps := ifDeps b\<rparr>), [])))"
proof -
  have "\<forall>key. length (bucket NewPathStateSet key) \<le> 11"
    by (simp add: bucket_def NewPathStateSet_def)
  then have "\<forall>key. length (bucket (enter_all ifDeps NewPathStateSet pss) key) \<le> 11"
    by (rule enter_all_bound)
  moreover have "walkBlock_enter ifDeps blockCache ps =
        (if similar > 10 then Inr (Trimmed, blockCache, [TooManyStates b])
         else Inr (Proceed, Add blockCache (ps\<lparr>mask_ps := ifDeps b\<rparr>), []))"
    if "block ps = Some b" "Contains blockCache (ps\<lparr>mask_ps := ifDeps b\<rparr>) = (False, similar)"
    using that by (simp add: walkBlock_enter_cases)
  ultimately show ?thesis by blast
qed


subsection \<open>Eleven states in one bucket\<close>

definition ex_st :: "int \<Rightarrow> PathState" where
  "ex_st n = \<lparr>block = Some 0, lockSet = NewLockSet 0, vs = ex_vs n, mask_ps = {}\<rparr>"

definition ex_ifDeps :: "nat \<Rightarrow> nat set" where
  "ex_ifDeps b = {1}"

definition ex_m :: "int \<Rightarrow> PathState" where
  "ex_m n = (ex_st n)\<lparr>mask_ps := {1}\<rparr>"

lemma ex_m_Equal: "PathState_Equal (ex_m a) (ex_m b) \<longleftrightarrow> a = b"
  by (auto simp: ex_m_def ex_st_def ex_vs_def PathState_Equal_def Equal_def EqualAt_def
      NewLockSet_def)

lemma ex_m_key: "PathState_HashKey (ex_m a) = (Some 0, 0)"
  by (simp add: ex_m_def ex_st_def PathState_HashKey_def HashKey_def NewLockSet_def)

lemma ex_enter_first:
  "walkBlock_enter ex_ifDeps [] (ex_st n) = Inr (Proceed, [((Some 0, 0), [ex_m n])], [])"
proof -
  have b: "block (ex_st n) = Some 0" by (simp add: ex_st_def)
  have m: "(ex_st n)\<lparr>mask_ps := ex_ifDeps 0\<rparr> = ex_m n" by (simp add: ex_m_def ex_ifDeps_def)
  show ?thesis
    unfolding walkBlock_enter_cases [OF b] m
    by (simp add: Contains_def Add_def Let_def bucket_def ex_m_key)
qed

lemma ex_Contains:
  "Contains [((Some 0, 0), map ex_m ns)] (ex_m n) = (n \<in> set ns, length ns)"
  by (auto simp: Contains_def Let_def bucket_def ex_m_key list_ex_iff ex_m_Equal)

lemma ex_enter_next:
  assumes "n \<notin> set ns" and "length ns \<le> 10"
  shows "walkBlock_enter ex_ifDeps [((Some 0, 0), map ex_m ns)] (ex_st n)
           = Inr (Proceed, [((Some 0, 0), map ex_m (ns @ [n]))], [])"
proof -
  have b: "block (ex_st n) = Some 0" by (simp add: ex_st_def)
  have m: "(ex_st n)\<lparr>mask_ps := ex_ifDeps 0\<rparr> = ex_m n" by (simp add: ex_m_def ex_ifDeps_def)
  have "Add [((Some 0, 0), map ex_m ns)] (ex_m n) = [((Some 0, 0), map ex_m (ns @ [n]))]"
    using assms(1) by (auto simp: Add_def Let_def bucket_def ex_m_key list_ex_iff ex_m_Equal)
  then show ?thesis
    unfolding walkBlock_enter_cases [OF b] m using assms by (simp add: ex_Contains)
qed

lemma ex_enter_full:
  assumes "n \<notin> set ns" and "length ns > 10"
  shows "walkBlock_enter ex_ifDeps [((Some 0, 0), map ex_m ns)] (ex_st n)
           = Inr (Trimmed, [((Some 0, 0), map ex_m ns)], [TooManyStates 0])"
proof -
  have b: "block (ex_st n) = Some 0" by (simp add: ex_st_def)
  have m: "(ex_st n)\<lparr>mask_ps := ex_ifDeps 0\<rparr> = ex_m n" by (simp add: ex_m_def ex_ifDeps_def)
  show ?thesis
    unfolding walkBlock_enter_cases [OF b] m using assms by (simp add: ex_Contains)
qed

lemma ex_enter_all:
  "distinct (ns @ ms) \<Longrightarrow> length (ns @ ms) \<le> 11 \<Longrightarrow>
   enter_all ex_ifDeps [((Some 0, 0), map ex_m ns)] (map ex_st ms)
     = [((Some 0, 0), map ex_m (ns @ ms))]"
proof (induction ms arbitrary: ns)
  case Nil
  then show ?case by simp
next
  case (Cons n ms)
  have "n \<notin> set ns" "length ns \<le> 10" using Cons.prems by auto
  then have "walkBlock_enter ex_ifDeps [((Some 0, 0), map ex_m ns)] (ex_st n)
               = Inr (Proceed, [((Some 0, 0), map ex_m (ns @ [n]))], [])"
    by (rule ex_enter_next)
  moreover have "enter_all ex_ifDeps [((Some 0, 0), map ex_m (ns @ [n]))] (map ex_st ms)
                   = [((Some 0, 0), map ex_m ((ns @ [n]) @ ms))]"
    using Cons.prems by (intro Cons.IH) auto
  ultimately show ?case by simp
qed

lemma ex_enter_ten:
  "enter_all ex_ifDeps NewPathStateSet (map ex_st [0, 1, 2, 3, 4, 5, 6, 7, 8, 9])
     = [((Some 0, 0), map ex_m [0, 1, 2, 3, 4, 5, 6, 7, 8, 9])]"
proof -
  have "enter_all ex_ifDeps [((Some 0, 0), map ex_m [0])] (map ex_st [1, 2, 3, 4, 5, 6, 7, 8, 9])
          = [((Some 0, 0), map ex_m ([0] @ [1, 2, 3, 4, 5, 6, 7, 8, 9]))]"
    by (rule ex_enter_all) simp_all
  then show ?thesis by (simp add: NewPathStateSet_def ex_enter_first)
qed

text \<open>
  Claim C4, as stated, fails.  The visited set holds ten states with the hash key of the entering state, which is not
  cached: entering it makes the bucket exceed ten.  \<open>walkBlock\<close> prints no warning,
  adds the state and proceeds; the bucket then holds eleven states.
\<close>

theorem walkBlock_eleventh_state_enters:
  "enter_all ex_ifDeps NewPathStateSet (map ex_st [0, 1, 2, 3, 4, 5, 6, 7, 8, 9])
     = [((Some 0, 0), map ex_m [0, 1, 2, 3, 4, 5, 6, 7, 8, 9])] \<and>
   Contains [((Some 0, 0), map ex_m [0, 1, 2, 3, 4, 5, 6, 7, 8, 9])] (ex_m 10) = (False, 10) \<and>
   walkBlock_enter ex_ifDeps [((Some 0, 0), map ex_m [0, 1, 2, 3, 4, 5, 6, 7, 8, 9])] (ex_st 10)
     = Inr (Proceed, [((Some 0, 0), map ex_m [0, 1, 2, 3, 4, 5, 6, 7, 8, 9, 10])], []) \<and>
   length (bucket [((Some 0, 0), map ex_m [0, 1, 2, 3, 4, 5, 6, 7, 8, 9, 10])] (Some 0, 0)) = 11"
proof (intro conjI)
  show "enter_all ex_ifDeps NewPathStateSet (map ex_st [0, 1, 2, 3, 4, 5, 6, 7, 8, 9])
     = [((Some 0, 0), map ex_m [0, 1, 2, 3, 4, 5, 6, 7, 8, 9])]"
    by (rule ex_enter_ten)
  show "Contains [((Some 0, 0), map ex_m [0, 1, 2, 3, 4, 5, 6, 7, 8, 9])] (ex_m 10) = (False, 10)"
    unfolding ex_Contains by simp
  show "walkBlock_enter ex_ifDeps [((Some 0, 0), map ex_m [0, 1, 2, 3, 4, 5, 6, 7, 8, 9])] (ex_st 10)
     = Inr (Proceed, [((Some 0, 0), map ex_m [0, 1, 2, 3, 4, 5, 6, 7, 8, 9, 10])], [])"
    using ex_enter_next [of 10 "[0, 1, 2, 3, 4, 5, 6, 7, 8, 9]"] by simp
  show "length (bucket [((Some 0, 0), map ex_m [0, 1, 2, 3, 4, 5, 6, 7, 8, 9, 10])] (Some 0, 0)) = 11"
    by (simp add: bucket_def)
qed

theorem walkBlock_explosion_guard_witness:
  "length (bucket (enter_all ex_ifDeps NewPathStateSet
      (map ex_st [0, 1, 2, 3, 4, 5, 6, 7, 8, 9])) (Some 0, 0)) \<le> 11 \<and>
   block (ex_st 11) = Some 0 \<and>
   Contains [((Some 0, 0), map ex_m [0, 1, 2, 3, 4, 5, 6, 7, 8, 9, 10])] (ex_m 11) = (False, 11) \<and>
   walkBlock_enter ex_ifDeps [((Some 0, 0), map ex_m [0, 1, 2, 3, 4, 5, 6, 7, 8, 9, 10])] (ex_st 11)
     = Inr (Trimmed, [((Some 0, 0), map ex_m [0, 1, 2, 3, 4, 5, 6, 7, 8, 9, 10])], [TooManyStates 0])"
proof -
  have b: "block (ex_st 11) = Some 0" by (simp add: ex_st_def)
  have c: "Contains [((Some 0, 0), map ex_m [0, 1, 2, 3, 4, 5, 6, 7, 8, 9, 10])]
             ((ex_st 11)\<lparr>mask_ps := ex_ifDeps 0\<rparr>) = (False, 11)"
    unfolding ex_m_def [symmetric] ex_ifDeps_def ex_Contains by simp
  have c': "Contains [((Some 0, 0), map ex_m [0, 1, 2, 3, 4, 5, 6, 7, 8, 9, 10])] (ex_m 11) = (False, 11)"
    unfolding ex_Contains by simp
  note g = walkBlock_explosion_guard [of ex_ifDeps "map ex_st [0, 1, 2, 3, 4, 5, 6, 7, 8, 9]"
      "ex_st 11" 0 "[((Some 0, 0), map ex_m [0, 1, 2, 3, 4, 5, 6, 7, 8, 9, 10])]" 11]
  have 1: "length (bucket (enter_all ex_ifDeps NewPathStateSet
      (map ex_st [0, 1, 2, 3, 4, 5, 6, 7, 8, 9])) (Some 0, 0)) \<le> 11"
    using g by blast
  have 2: "walkBlock_enter ex_ifDeps [((Some 0, 0), map ex_m [0, 1, 2, 3, 4, 5, 6, 7, 8, 9, 10])] (ex_st 11)
     = Inr (Trimmed, [((Some 0, 0), map ex_m [0, 1, 2, 3, 4, 5, 6, 7, 8, 9, 10])], [TooManyStates 0])"
    using g b c by simp
  from 1 b c' 2 show ?thesis by blast
qed


section \<open>walkBlock: the successors of a block\<close>

text \<open>
  The SSA form as far as \<open>walkBlock\<close> reads it.  Values and instructions are
  numbers; a \<open>Phi\<close> carries its own number, under which its value is bound, and the
  numbers of its edges.  A call and a \<open>Go\<close> carry the number of the instruction, which is
  the call site.  A block is the number under which \<open>blocks\<close> holds it.
\<close>

datatype Instruction =
    ssa_Phi nat "nat list" | ssa_If nat | ssa_Call nat | ssa_Go nat | ssa_Return | ssa_Other

record BasicBlock =
  Index :: nat
  Instrs :: "Instruction list"
  Succs :: "nat list"
  Preds :: "nat list"

text \<open>The instruction loop assigns \<open>ifCond\<close> at each \<^verbatim>\<open>*ssa.If\<close> it meets.\<close>

fun find_ifCond :: "Instruction list \<Rightarrow> nat option \<Rightarrow> nat option" where
  "find_ifCond [] ifCond = ifCond"
| "find_ifCond (ssa_If cond # rest) ifCond = find_ifCond rest (Some cond)"
| "find_ifCond (instr # rest) ifCond = find_ifCond rest ifCond"

text \<open>
  The choice of successors: with a condition that the value state resolves, the slice
  \<open>succs\<close> is cut to \<^verbatim>\<open>succs[:1]\<close> or \<^verbatim>\<open>succs[1:]\<close>.  The type assertion
  \<^verbatim>\<open>x.(DynConst)\<close>, \<open>BoolVal\<close> and the slice expressions can panic.
\<close>

definition choose_succs :: "nat list \<Rightarrow> nat option \<Rightarrow> PathState \<Rightarrow> error + nat list" where
  "choose_succs succs ifCond ps =
     (case ifCond of
        None \<Rightarrow> Inr succs
      | Some c \<Rightarrow>
          (case Get (vs ps) c of
             None \<Rightarrow> Inr succs
           | Some x \<Rightarrow>
               (case x of
                  DynConst k \<Rightarrow>
                    (case BoolVal k of
                       Inl e \<Rightarrow> Inl e
                     | Inr taken \<Rightarrow>
                         if length succs < 1 then Inl IndexOutOfRange
                         else if taken then Inr (take 1 succs) else Inr (drop 1 succs))
                | _ \<Rightarrow> Inl TypeAssertion)))"

text \<open>The loop over the edges of one phi of the successor \<open>b2\<close>; \<open>i\<close> is the index of
  the edge.\<close>

fun phi_edges :: "nat \<Rightarrow> BasicBlock \<Rightarrow> nat \<Rightarrow> nat \<Rightarrow> nat list \<Rightarrow> ValState \<Rightarrow> error + ValState" where
  "phi_edges b b2 phi i [] st = Inr st"
| "phi_edges b b2 phi i (inval # rest) st =
     (if i \<ge> length (Preds b2) then Inl IndexOutOfRange
      else if Preds b2 ! i = b then
        (case Get st inval of
           Some x \<Rightarrow> phi_edges b b2 phi (i + 1) rest (Extend st phi x)
         | None \<Rightarrow> phi_edges b b2 phi (i + 1) rest st)
      else phi_edges b b2 phi (i + 1) rest st)"

text \<open>The loop over the instructions of \<open>b2\<close>, which stops at the first that is not a phi.\<close>

fun propagate_phis :: "nat \<Rightarrow> BasicBlock \<Rightarrow> Instruction list \<Rightarrow> ValState \<Rightarrow> error + ValState" where
  "propagate_phis b b2 [] st = Inr st"
| "propagate_phis b b2 (ssa_Phi phi edges # rest) st =
     (case phi_edges b b2 phi 0 edges st of
        Inl e \<Rightarrow> Inl e
      | Inr st2 \<Rightarrow> propagate_phis b b2 rest st2)"
| "propagate_phis b b2 (instr # rest) st = Inr st"

text \<open>
  The loop \<^verbatim>\<open>for i, b2 := range succs\<close>.  Its result lists, in order, the states
  \<open>ps2\<close> with which \<open>walkBlock\<close> calls itself.
\<close>

fun succ_loop ::
  "(nat \<Rightarrow> BasicBlock) \<Rightarrow> nat \<Rightarrow> nat option \<Rightarrow> PathState \<Rightarrow> nat \<Rightarrow> nat list
     \<Rightarrow> error + PathState list" where
  "succ_loop blocks b ifCond ps i [] = Inr []"
| "succ_loop blocks b ifCond ps i (b2 # rest) =
     (let ps2 = ps\<lparr>block := Some b2\<rparr>;
          ps3 = (case ifCond of
                   None \<Rightarrow> ps2
                 | Some c \<Rightarrow> ps2\<lparr>vs := Extend (vs ps2) c (DynConst (MakeBool (i = 0)))\<rparr>)
      in case propagate_phis b (blocks b2) (Instrs (blocks b2)) (vs ps3) of
           Inl e \<Rightarrow> Inl e
         | Inr st \<Rightarrow>
             (case succ_loop blocks b ifCond ps (i + 1) rest of
                Inl e \<Rightarrow> Inl e
              | Inr pss \<Rightarrow> Inr (ps3\<lparr>vs := st\<rparr> # pss)))"

definition walkBlock_succs ::
  "(nat \<Rightarrow> BasicBlock) \<Rightarrow> nat \<Rightarrow> nat option \<Rightarrow> PathState \<Rightarrow> error + PathState list" where
  "walkBlock_succs blocks b ifCond ps =
     (case choose_succs (Succs (blocks b)) ifCond ps of
        Inl e \<Rightarrow> Inl e
      | Inr succs \<Rightarrow> succ_loop blocks b ifCond ps 0 succs)"

text \<open>In SSA form a phi has one edge for each predecessor of its block.\<close>

definition phis_ok :: "BasicBlock \<Rightarrow> bool" where
  "phis_ok b2 = (\<forall>instr \<in> set (Instrs b2).
      case instr of ssa_Phi phi edges \<Rightarrow> length edges = length (Preds b2) | _ \<Rightarrow> True)"

lemma phi_edges_total:
  "i + length edges \<le> length (Preds b2) \<Longrightarrow> \<exists>st2. phi_edges b b2 phi i edges st = Inr st2"
  by (induction edges arbitrary: i st) (auto split: option.splits)

lemma propagate_phis_total:
  "\<forall>instr \<in> set instrs. case instr of ssa_Phi phi edges \<Rightarrow> length edges = length (Preds b2) | _ \<Rightarrow> True
   \<Longrightarrow> \<exists>st2. propagate_phis b b2 instrs st = Inr st2"
proof (induction instrs arbitrary: st)
  case Nil
  then show ?case by simp
next
  case (Cons instr instrs)
  show ?case
  proof (cases instr)
    case (ssa_Phi phi edges)
    then have "length edges = length (Preds b2)" using Cons.prems by simp
    then obtain st2 where "phi_edges b b2 phi 0 edges st = Inr st2"
      using phi_edges_total [of 0 edges b2 b phi st] by auto
    moreover obtain st3 where "propagate_phis b b2 instrs st2 = Inr st3"
      using Cons.IH [of st2] Cons.prems by auto
    ultimately show ?thesis using ssa_Phi by simp
  qed simp_all
qed

lemma succ_loop_one:
  assumes "phis_ok (blocks b2)"
  shows "\<exists>ps2. succ_loop blocks b ifCond ps i [b2] = Inr [ps2] \<and> block ps2 = Some b2"
proof -
  let ?ps3 = "case ifCond of None \<Rightarrow> ps\<lparr>block := Some b2\<rparr>
     | Some c \<Rightarrow> ps\<lparr>block := Some b2, vs := Extend (vs ps) c (DynConst (MakeBool (i = 0)))\<rparr>"
  obtain st where "propagate_phis b (blocks b2) (Instrs (blocks b2)) (vs ?ps3) = Inr st"
    using propagate_phis_total [of "Instrs (blocks b2)" "blocks b2" b "vs ?ps3"] assms
    by (auto simp: phis_ok_def)
  then show ?thesis by (cases ifCond) (simp_all add: Let_def)
qed

text \<open>
  Claim C9.  When the condition of the \<open>If\<close> that ends block \<open>b\<close> resolves to a boolean
  constant in the value state, \<open>walkBlock\<close> calls itself for one successor only: the first
  for true, the second for false.
\<close>

theorem walkBlock_prunes_to_taken_edge:
  assumes "find_ifCond (Instrs (blocks b)) None = Some c"
    and "Succs (blocks b) = [bt, bf]"
    and "Get (vs ps) c = Some (DynConst (MakeBool v))"
    and "phis_ok (blocks bt)" and "phis_ok (blocks bf)"
  shows "\<exists>ps2. walkBlock_succs blocks b (find_ifCond (Instrs (blocks b)) None) ps = Inr [ps2] \<and>
               block ps2 = Some (if v then bt else bf)"
proof -
  have "choose_succs (Succs (blocks b)) (Some c) ps = Inr [if v then bt else bf]"
    using assms(2,3) by (simp add: choose_succs_def BoolVal_def)
  moreover have "phis_ok (blocks (if v then bt else bf))" using assms(4,5) by simp
  ultimately show ?thesis
    using succ_loop_one [of blocks "if v then bt else bf" b "Some c" ps 0] assms(1)
    by (simp add: walkBlock_succs_def)
qed

definition ex_blocks :: "nat \<Rightarrow> BasicBlock" where
  "ex_blocks n =
     (if n = 0 then \<lparr>Index = 0, Instrs = [ssa_Other, ssa_If 7], Succs = [1, 2], Preds = []\<rparr>
      else if n = 1 then \<lparr>Index = 1, Instrs = [ssa_Phi 9 [7], ssa_Other], Succs = [], Preds = [0]\<rparr>
      else \<lparr>Index = n, Instrs = [ssa_Other], Succs = [], Preds = [0]\<rparr>)"

definition ex_cond :: "bool \<Rightarrow> PathState" where
  "ex_cond v = \<lparr>block = Some 0, lockSet = NewLockSet 0,
                 vs = \<lparr>vs_vals = [7 \<mapsto> DynConst (MakeBool v)], vs_heap = Map.empty\<rparr>,
                 mask_ps = {7}\<rparr>"

lemma ex_blocks_ifCond: "find_ifCond (Instrs (ex_blocks 0)) None = Some 7"
  by (simp add: ex_blocks_def)

theorem walkBlock_prunes_to_taken_edge_witness:
  "find_ifCond (Instrs (ex_blocks 0)) None = Some 7 \<and>
   Succs (ex_blocks 0) = [1, 2] \<and>
   Get (vs (ex_cond True)) 7 = Some (DynConst (MakeBool True)) \<and>
   phis_ok (ex_blocks 1) \<and> phis_ok (ex_blocks 2) \<and>
   (\<exists>ps2. walkBlock_succs ex_blocks 0 (find_ifCond (Instrs (ex_blocks 0)) None) (ex_cond True)
            = Inr [ps2] \<and> block ps2 = Some 1)"
proof -
  have 1: "Succs (ex_blocks 0) = [1, 2]" by (simp add: ex_blocks_def)
  have 2: "Get (vs (ex_cond True)) 7 = Some (DynConst (MakeBool True))"
    by (simp add: ex_cond_def Get_def)
  have 3: "phis_ok (ex_blocks 1)" by (simp add: phis_ok_def ex_blocks_def)
  have 4: "phis_ok (ex_blocks 2)" by (simp add: phis_ok_def ex_blocks_def)
  from walkBlock_prunes_to_taken_edge [OF ex_blocks_ifCond 1 2 3 4] ex_blocks_ifCond 1 2 3 4
  show ?thesis by simp
qed

subsection \<open>The constant bound to the condition\<close>

text \<open>A successor that does not begin with a phi takes the value state as it is.\<close>

definition no_phi :: "BasicBlock \<Rightarrow> bool" where
  "no_phi b2 = (case Instrs b2 of ssa_Phi phi edges # rest \<Rightarrow> False | _ \<Rightarrow> True)"

lemma propagate_no_phi:
  assumes "no_phi b2"
  shows "propagate_phis b b2 (Instrs b2) st = Inr st"
proof (cases "Instrs b2")
  case Nil
  then show ?thesis by simp
next
  case (Cons instr rest)
  with assms show ?thesis by (cases instr) (simp_all add: no_phi_def)
qed

text \<open>With a condition that the value state does not resolve, both successors are
  entered, the first with the condition bound to true and the second with it bound to
  false.\<close>

lemma succs_unresolved:
  assumes "Succs (blocks b) = [bt, bf]" and "Get (vs ps) c = None"
    and "no_phi (blocks bt)" and "no_phi (blocks bf)"
  shows "walkBlock_succs blocks b (Some c) ps =
           Inr [ps\<lparr>block := Some bt, vs := Extend (vs ps) c (DynConst (MakeBool True))\<rparr>,
                ps\<lparr>block := Some bf, vs := Extend (vs ps) c (DynConst (MakeBool False))\<rparr>]"
  using assms
  by (simp add: walkBlock_succs_def choose_succs_def Let_def propagate_no_phi)

text \<open>With a condition resolved to true, the first successor is entered with the
  condition bound to true.\<close>

lemma succs_resolved_true:
  assumes "Succs (blocks b) = [bt, bf]" and "Get (vs ps) c = Some (DynConst (MakeBool True))"
    and "no_phi (blocks bt)"
  shows "walkBlock_succs blocks b (Some c) ps =
           Inr [ps\<lparr>block := Some bt, vs := Extend (vs ps) c (DynConst (MakeBool True))\<rparr>]"
  using assms
  by (simp add: walkBlock_succs_def choose_succs_def BoolVal_def Let_def propagate_no_phi)

text \<open>With a condition resolved to false, the slice of successors is \<^verbatim>\<open>succs[1:]\<close>, in
  which the second successor has index 0: it is entered with the condition bound to
  true.\<close>

lemma succs_resolved_false:
  assumes "Succs (blocks b) = [bt, bf]" and "Get (vs ps) c = Some (DynConst (MakeBool False))"
    and "no_phi (blocks bf)"
  shows "walkBlock_succs blocks b (Some c) ps =
           Inr [ps\<lparr>block := Some bf, vs := Extend (vs ps) c (DynConst (MakeBool True))\<rparr>]"
  using assms
  by (simp add: walkBlock_succs_def choose_succs_def BoolVal_def Let_def propagate_no_phi)

text \<open>
  Claim C2.  The loop binds the condition to \<^verbatim>\<open>MakeBool(i == 0)\<close>, where \<open>i\<close> is the
  index in the slice \<open>succs\<close> after it was cut.  Block 0 ends in an \<open>If\<close> on value 7, which
  the value state resolves to false; its second successor is block 2.  \<open>walkBlock\<close> calls
  itself for block 2 with value 7 bound to true.
\<close>

theorem walkBlock_false_edge_binds_true:
  "find_ifCond (Instrs (ex_blocks 0)) None = Some 7 \<and>
   Succs (ex_blocks 0) ! 1 = 2 \<and>
   Get (vs (ex_cond False)) 7 = Some (DynConst (MakeBool False)) \<and>
   walkBlock_succs ex_blocks 0 (find_ifCond (Instrs (ex_blocks 0)) None) (ex_cond False)
     = Inr [(ex_cond False)\<lparr>block := Some 2,
              vs := Extend (vs (ex_cond False)) 7 (DynConst (MakeBool True))\<rparr>] \<and>
   Get (Extend (vs (ex_cond False)) 7 (DynConst (MakeBool True))) 7 = Some (DynConst (MakeBool True))"
proof -
  have 1: "Succs (ex_blocks 0) = [1, 2]" by (simp add: ex_blocks_def)
  have 2: "Get (vs (ex_cond False)) 7 = Some (DynConst (MakeBool False))"
    by (simp add: ex_cond_def Get_def)
  have 3: "no_phi (ex_blocks 2)" by (simp add: no_phi_def ex_blocks_def)
  from succs_resolved_false [OF 1 2 3] ex_blocks_ifCond 1 2
  show ?thesis by (simp add: Get_def Extend_def)
qed


section \<open>StackFrame: stacks of call sites and their interning\<close>

text \<open>
  \<^verbatim>\<open>type StackFrame struct { parent *StackFrame; call ssa.Instruction }\<close>.  Frames live
  in a store in the order of their allocation, and the address of a frame is its position;
  a frame is never written after it was allocated.  \<open>internedStackFrames\<close> is the
  package-level map from frame values to canonical pointers.  Call sites are numbers.
\<close>

record StackFrame =
  parent :: sfptr
  call :: nat

record frame_store =
  frames :: "StackFrame list"
  internedStackFrames :: "(sfptr \<times> nat) \<rightharpoonup> nat"

definition NewFrameStore :: frame_store where
  "NewFrameStore = \<lparr>frames = [], internedStackFrames = Map.empty\<rparr>"

text \<open>\<open>Extend\<close> allocates \<^verbatim>\<open>&StackFrame{sf, call}\<close> and returns its address.\<close>

definition StackFrame_Extend :: "frame_store \<Rightarrow> sfptr \<Rightarrow> nat \<Rightarrow> frame_store \<times> nat" where
  "StackFrame_Extend st sf c =
     (st\<lparr>frames := frames st @ [\<lparr>parent = sf, call = c\<rparr>]\<rparr>, length (frames st))"

text \<open>
  \<open>Flatten\<close> and \<open>Intern\<close> recurse along the parent pointers.  The recursion is bounded
  by fuel; running out of fuel, like following a pointer that leads outside the store, is
  the result \<open>None\<close>.  \<open>Flatten\<close> yields the calls with the outermost first (the buffer
  \<open>into\<close> only provides storage).
\<close>

fun Flatten_fuel :: "nat \<Rightarrow> StackFrame list \<Rightarrow> sfptr \<Rightarrow> nat list option" where
  "Flatten_fuel n h None = Some []"
| "Flatten_fuel 0 h (Some a) = None"
| "Flatten_fuel (Suc n) h (Some a) =
     (if a < length h then
        (case Flatten_fuel n h (parent (h ! a)) of
           None \<Rightarrow> None
         | Some cs \<Rightarrow> Some (cs @ [call (h ! a)]))
      else None)"

definition Flatten :: "frame_store \<Rightarrow> sfptr \<Rightarrow> nat list option" where
  "Flatten st sf = Flatten_fuel (length (frames st)) (frames st) sf"

fun Intern_fuel :: "nat \<Rightarrow> frame_store \<Rightarrow> sfptr \<Rightarrow> (frame_store \<times> sfptr) option" where
  "Intern_fuel n st None = Some (st, None)"
| "Intern_fuel 0 st (Some a) = None"
| "Intern_fuel (Suc n) st (Some a) =
     (if a < length (frames st) then
        (let fr = frames st ! a
         in case internedStackFrames st (parent fr, call fr) of
              Some canon \<Rightarrow> Some (st, Some canon)
            | None \<Rightarrow>
                (case Intern_fuel n st (parent fr) of
                   None \<Rightarrow> None
                 | Some (st1, p) \<Rightarrow>
                     (let (st2, nsf) = StackFrame_Extend st1 p (call fr)
                      in case internedStackFrames st2 (p, call fr) of
                           Some canon \<Rightarrow> Some (st2, Some canon)
                         | None \<Rightarrow>
                             Some (st2\<lparr>internedStackFrames :=
                                        (internedStackFrames st2)((p, call fr) \<mapsto> nsf)\<rparr>,
                                   Some nsf))))
      else None)"

definition StackFrame_Intern :: "frame_store \<Rightarrow> sfptr \<Rightarrow> (frame_store \<times> sfptr) option" where
  "StackFrame_Intern st sf = Intern_fuel (length (frames st)) st sf"

text \<open>
  The stores that the program can reach: a parent is allocated before its child, and an
  entry of the table maps the value of a frame to the address of a frame with that value,
  whose parent is nil or itself canonical.
\<close>

definition heap_ok :: "StackFrame list \<Rightarrow> bool" where
  "heap_ok h = (\<forall>a < length h. \<forall>p. parent (h ! a) = Some p \<longrightarrow> p < a)"

definition canonical :: "frame_store \<Rightarrow> nat \<Rightarrow> bool" where
  "canonical st q = (q \<in> ran (internedStackFrames st))"

definition store_ok :: "frame_store \<Rightarrow> bool" where
  "store_ok st =
     (heap_ok (frames st) \<and>
      (\<forall>p c q. internedStackFrames st (p, c) = Some q \<longrightarrow>
         q < length (frames st) \<and> frames st ! q = \<lparr>parent = p, call = c\<rparr> \<and>
         (\<forall>a. p = Some a \<longrightarrow> canonical st a)))"

definition valid_ptr :: "frame_store \<Rightarrow> sfptr \<Rightarrow> bool" where
  "valid_ptr st sf = (case sf of None \<Rightarrow> True | Some a \<Rightarrow> a < length (frames st))"

text \<open>The sequence of calls of a frame, by recursion on its address.\<close>

function calls_of :: "StackFrame list \<Rightarrow> nat \<Rightarrow> nat list" where
  "calls_of h a =
     (case parent (h ! a) of
        None \<Rightarrow> [call (h ! a)]
      | Some p \<Rightarrow> if p < a then calls_of h p @ [call (h ! a)] else [call (h ! a)])"
  by pat_completeness auto
termination
  by (relation "measure snd") auto

declare calls_of.simps [simp del]

definition calls :: "StackFrame list \<Rightarrow> sfptr \<Rightarrow> nat list" where
  "calls h sf = (case sf of None \<Rightarrow> [] | Some a \<Rightarrow> calls_of h a)"


lemma valid_ptr_iff: "valid_ptr st sf \<longleftrightarrow> (\<forall>a. sf = Some a \<longrightarrow> a < length (frames st))"
  by (cases sf) (simp_all add: valid_ptr_def)

lemma calls_of_unfold:
  assumes "heap_ok h" and "a < length h"
  shows "calls_of h a = calls h (parent (h ! a)) @ [call (h ! a)]"
proof (cases "parent (h ! a)")
  case None
  then show ?thesis by (simp add: calls_of.simps [of h a] calls_def)
next
  case (Some p)
  then have "p < a" using assms by (simp add: heap_ok_def)
  with Some show ?thesis by (simp add: calls_of.simps [of h a] calls_def)
qed

lemma calls_of_not_Nil: "calls_of h a \<noteq> []"
  by (simp add: calls_of.simps [of h a] split: option.splits)

lemma heap_ok_parent_valid:
  assumes "heap_ok h" and "a < length h" and "parent (h ! a) = Some p"
  shows "p < a" and "p < length h"
proof -
  show "p < a" using assms by (simp add: heap_ok_def)
  with assms(2) show "p < length h" by simp
qed

lemma Flatten_fuel_calls:
  "heap_ok h \<Longrightarrow> (\<forall>a. sf = Some a \<longrightarrow> a < length h \<and> a < n) \<Longrightarrow>
   Flatten_fuel n h sf = Some (calls h sf)"
proof (induction n arbitrary: sf)
  case 0
  then show ?case by (cases sf) (simp_all add: calls_def)
next
  case (Suc n)
  show ?case
  proof (cases sf)
    case None
    then show ?thesis by (simp add: calls_def)
  next
    case (Some a)
    with Suc.prems have a: "a < length h" "a < Suc n" by simp_all
    have "\<forall>b. parent (h ! a) = Some b \<longrightarrow> b < length h \<and> b < n"
      using heap_ok_parent_valid [OF Suc.prems(1) a(1)] a(2) by fastforce
    from Suc.IH [OF Suc.prems(1) this]
    have "Flatten_fuel n h (parent (h ! a)) = Some (calls h (parent (h ! a)))" .
    with Some a show ?thesis
      by (simp add: calls_def calls_of_unfold [OF Suc.prems(1) a(1)])
  qed
qed

lemma Flatten_calls:
  assumes "heap_ok (frames st)" and "valid_ptr st sf"
  shows "Flatten st sf = Some (calls (frames st) sf)"
  unfolding Flatten_def using assms
  by (intro Flatten_fuel_calls) (auto simp: valid_ptr_iff)

lemma calls_of_append:
  assumes "heap_ok h"
  shows "a < length h \<Longrightarrow> calls_of (h @ ext) a = calls_of h a"
proof (induction a rule: less_induct)
  case (less a)
  have nth: "(h @ ext) ! a = h ! a" using less.prems by (simp add: nth_append)
  show ?case
  proof (cases "parent (h ! a)")
    case None
    then show ?thesis
      by (simp add: calls_of.simps [of h a] calls_of.simps [of "h @ ext" a] nth)
  next
    case (Some p)
    have p: "p < a" "p < length h"
      using heap_ok_parent_valid [OF assms less.prems Some] by simp_all
    from less.IH [OF p] Some p(1) show ?thesis
      by (simp add: calls_of.simps [of h a] calls_of.simps [of "h @ ext" a] nth)
  qed
qed

lemma calls_append:
  assumes "heap_ok h" and "\<forall>a. sf = Some a \<longrightarrow> a < length h"
  shows "calls (h @ ext) sf = calls h sf"
  using assms by (cases sf) (simp_all add: calls_def calls_of_append)

lemma heap_ok_snoc:
  assumes "heap_ok h" and "\<forall>a. p = Some a \<longrightarrow> a < length h"
  shows "heap_ok (h @ [\<lparr>parent = p, call = c\<rparr>])"
  unfolding heap_ok_def
proof (intro allI impI)
  fix a b
  assume a: "a < length (h @ [\<lparr>parent = p, call = c\<rparr>])"
    and b: "parent ((h @ [\<lparr>parent = p, call = c\<rparr>]) ! a) = Some b"
  show "b < a"
  proof (cases "a < length h")
    case True
    with b have "parent (h ! a) = Some b" by (simp add: nth_append)
    with assms(1) True show ?thesis by (simp add: heap_ok_def)
  next
    case False
    with a have "a = length h" by simp
    with b assms(2) show ?thesis by simp
  qed
qed

lemma canonical_unique:
  assumes ok: "store_ok st"
  shows "canonical st q1 \<Longrightarrow> canonical st q2 \<Longrightarrow>
         calls_of (frames st) q1 = calls_of (frames st) q2 \<Longrightarrow> q1 = q2"
proof (induction q1 arbitrary: q2 rule: less_induct)
  case (less q1)
  let ?h = "frames st"
  have hk: "heap_ok ?h" using ok by (simp add: store_ok_def)
  from less.prems(1) obtain p1 c1 where k1: "internedStackFrames st (p1, c1) = Some q1"
    by (auto simp: canonical_def ran_def)
  from less.prems(2) obtain p2 c2 where k2: "internedStackFrames st (p2, c2) = Some q2"
    by (auto simp: canonical_def ran_def)
  have f1: "q1 < length ?h" "?h ! q1 = \<lparr>parent = p1, call = c1\<rparr>"
    and c1: "\<forall>a. p1 = Some a \<longrightarrow> canonical st a"
    using ok k1 unfolding store_ok_def by blast+
  have f2: "q2 < length ?h" "?h ! q2 = \<lparr>parent = p2, call = c2\<rparr>"
    and c2: "\<forall>a. p2 = Some a \<longrightarrow> canonical st a"
    using ok k2 unfolding store_ok_def by blast+
  have u1: "calls_of ?h q1 = calls ?h p1 @ [c1]"
    using calls_of_unfold [OF hk f1(1)] f1(2) by simp
  have u2: "calls_of ?h q2 = calls ?h p2 @ [c2]"
    using calls_of_unfold [OF hk f2(1)] f2(2) by simp
  from less.prems(3) u1 u2 have cc: "c1 = c2" and pp: "calls ?h p1 = calls ?h p2" by simp_all
  have "p1 = p2"
  proof (cases p1)
    case None
    then have "calls ?h p2 = []" using pp by (simp add: calls_def)
    then have "p2 = None" by (cases p2) (simp_all add: calls_def calls_of_not_Nil)
    with None show ?thesis by simp
  next
    case (Some a1)
    then have "calls ?h p1 \<noteq> []" by (simp add: calls_def calls_of_not_Nil)
    then have "calls ?h p2 \<noteq> []" using pp by simp
    then obtain a2 where a2: "p2 = Some a2" by (cases p2) (simp_all add: calls_def)
    have "a1 < q1" using heap_ok_parent_valid(1) [OF hk f1(1)] f1(2) Some by simp
    moreover have "canonical st a1" "canonical st a2" using c1 c2 Some a2 by simp_all
    moreover have "calls_of ?h a1 = calls_of ?h a2" using pp Some a2 by (simp add: calls_def)
    ultimately have "a1 = a2" by (rule less.IH)
    with Some a2 show ?thesis by simp
  qed
  with cc k1 k2 show ?case by simp
qed


lemma canonical_insert:
  assumes "internedStackFrames st k = None" and "canonical st q"
  shows "canonical (st\<lparr>internedStackFrames := (internedStackFrames st)(k \<mapsto> v)\<rparr>) q"
proof -
  from assms(2) obtain k' where k': "internedStackFrames st k' = Some q"
    by (auto simp: canonical_def ran_def)
  with assms(1) have "k' \<noteq> k" by auto
  with k' have "((internedStackFrames st)(k \<mapsto> v)) k' = Some q" by simp
  then show ?thesis unfolding canonical_def by (simp add: ranI)
qed

lemma store_ok_grow:
  assumes ok: "store_ok st" and v: "valid_ptr st p"
  shows "store_ok (st\<lparr>frames := frames st @ [\<lparr>parent = p, call = c\<rparr>]\<rparr>)"
proof -
  let ?st2 = "st\<lparr>frames := frames st @ [\<lparr>parent = p, call = c\<rparr>]\<rparr>"
  have "\<forall>a. p = Some a \<longrightarrow> a < length (frames st)"
    using v by (simp add: valid_ptr_iff)
  with ok have h: "heap_ok (frames ?st2)" by (simp add: store_ok_def heap_ok_snoc)
  have can: "canonical ?st2 a = canonical st a" for a by (simp add: canonical_def)
  have "q < length (frames ?st2) \<and> frames ?st2 ! q = \<lparr>parent = p', call = c'\<rparr> \<and>
        (\<forall>a. p' = Some a \<longrightarrow> canonical ?st2 a)"
    if "internedStackFrames ?st2 (p', c') = Some q" for p' c' q
  proof -
    from that have "internedStackFrames st (p', c') = Some q" by simp
    with ok have "q < length (frames st)" "frames st ! q = \<lparr>parent = p', call = c'\<rparr>"
      "\<forall>a. p' = Some a \<longrightarrow> canonical st a"
      unfolding store_ok_def by blast+
    then show ?thesis by (simp add: nth_append can)
  qed
  with h show ?thesis unfolding store_ok_def by blast
qed

lemma store_ok_insert:
  assumes ok: "store_ok st" and fresh: "internedStackFrames st (p, c) = None"
    and q: "q < length (frames st)" "frames st ! q = \<lparr>parent = p, call = c\<rparr>"
    and can: "\<forall>a. p = Some a \<longrightarrow> canonical st a"
  shows "store_ok (st\<lparr>internedStackFrames := (internedStackFrames st)((p, c) \<mapsto> q)\<rparr>)"
proof -
  let ?st3 = "st\<lparr>internedStackFrames := (internedStackFrames st)((p, c) \<mapsto> q)\<rparr>"
  have h: "heap_ok (frames ?st3)" using ok by (simp add: store_ok_def)
  have mono: "canonical ?st3 a" if "canonical st a" for a
    using fresh that by (rule canonical_insert)
  have "q' < length (frames ?st3) \<and> frames ?st3 ! q' = \<lparr>parent = p', call = c'\<rparr> \<and>
        (\<forall>a. p' = Some a \<longrightarrow> canonical ?st3 a)"
    if e: "internedStackFrames ?st3 (p', c') = Some q'" for p' c' q'
  proof (cases "(p', c') = (p, c)")
    case True
    with e have qq: "q' = q" and pc: "p' = p" "c' = c" by simp_all
    have "\<forall>a. p = Some a \<longrightarrow> canonical ?st3 a" using can mono by blast
    with qq pc q show ?thesis by simp
  next
    case False
    with e have "internedStackFrames st (p', c') = Some q'" by (simp split: if_splits)
    with ok have "q' < length (frames st)" "frames st ! q' = \<lparr>parent = p', call = c'\<rparr>"
      "\<forall>a. p' = Some a \<longrightarrow> canonical st a"
      unfolding store_ok_def by blast+
    with mono show ?thesis by simp
  qed
  with h show ?thesis unfolding store_ok_def by blast
qed

text \<open>What a call of \<open>Intern\<close> establishes.\<close>

definition interned_post :: "frame_store \<Rightarrow> sfptr \<Rightarrow> frame_store \<Rightarrow> sfptr \<Rightarrow> bool" where
  "interned_post st sf st' r =
     (store_ok st' \<and> (\<exists>ext. frames st' = frames st @ ext) \<and>
      (\<forall>q. canonical st q \<longrightarrow> canonical st' q) \<and>
      valid_ptr st' r \<and> (sf = None \<longrightarrow> r = None) \<and>
      (\<forall>a. sf = Some a \<longrightarrow> (\<exists>q. r = Some q \<and> canonical st' q)) \<and>
      calls (frames st') r = calls (frames st) sf)"

lemma Intern_fuel_correct:
  assumes ok: "store_ok st"
  shows "valid_ptr st sf \<Longrightarrow> \<forall>a. sf = Some a \<longrightarrow> a < n \<Longrightarrow>
         \<exists>st' r. Intern_fuel n st sf = Some (st', r) \<and> interned_post st sf st' r"
proof (induction n arbitrary: sf)
  case 0
  then have "sf = None" by (cases sf) simp_all
  then show ?case using ok by (simp add: interned_post_def valid_ptr_iff)
next
  case (Suc n)
  let ?h = "frames st"
  have hk: "heap_ok ?h" using ok by (simp add: store_ok_def)
  show ?case
  proof (cases sf)
    case None
    then show ?thesis using ok by (simp add: interned_post_def valid_ptr_iff)
  next
    case (Some a)
    with Suc.prems have a: "a < length ?h" "a < Suc n" by (simp_all add: valid_ptr_iff)
    define p where "p = parent (?h ! a)"
    define c where "c = call (?h ! a)"
    have fr: "?h ! a = \<lparr>parent = p, call = c\<rparr>" by (simp add: p_def c_def)
    have ca: "calls ?h sf = calls ?h p @ [c]"
      using calls_of_unfold [OF hk a(1)] Some by (simp add: calls_def p_def c_def)
    show ?thesis
    proof (cases "internedStackFrames st (p, c)")
      case (Some q)
      have q: "q < length ?h" "?h ! q = \<lparr>parent = p, call = c\<rparr>"
        using ok Some unfolding store_ok_def by blast+
      have "calls ?h (Some q) = calls ?h p @ [c]"
        using calls_of_unfold [OF hk q(1)] q(2) by (simp add: calls_def)
      moreover have "canonical st q" unfolding canonical_def using Some by (rule ranI)
      moreover have "Intern_fuel (Suc n) st sf = Some (st, Some q)"
        using \<open>sf = Some a\<close> a(1) Some by (simp add: p_def c_def Let_def)
      ultimately show ?thesis
        using ok q(1) ca \<open>sf = Some a\<close> by (simp add: interned_post_def valid_ptr_iff)
    next
      case None
      have vp: "valid_ptr st p" and bp: "\<forall>b. p = Some b \<longrightarrow> b < n"
        using heap_ok_parent_valid [OF hk a(1)] a(2)
        by (auto simp: valid_ptr_iff p_def split: option.splits)
      from Suc.IH [OF vp bp] obtain st1 r1 where
        I1: "Intern_fuel n st p = Some (st1, r1)" and P1: "interned_post st p st1 r1"
        by blast
      from P1 have ok1: "store_ok st1" and v1: "valid_ptr st1 r1"
        and mono1: "\<forall>q. canonical st q \<longrightarrow> canonical st1 q"
        and can1: "\<forall>b. r1 = Some b \<longrightarrow> canonical st1 b"
        and calls1: "calls (frames st1) r1 = calls ?h p"
        by (auto simp: interned_post_def)
      from P1 obtain ext where ext: "frames st1 = ?h @ ext" by (auto simp: interned_post_def)
      define st2 where "st2 = st1\<lparr>frames := frames st1 @ [\<lparr>parent = r1, call = c\<rparr>]\<rparr>"
      define nsf where "nsf = length (frames st1)"
      have E: "StackFrame_Extend st1 r1 c = (st2, nsf)"
        by (simp add: StackFrame_Extend_def st2_def nsf_def)
      have ok2: "store_ok st2" unfolding st2_def using ok1 v1 by (rule store_ok_grow)
      have hk2: "heap_ok (frames st2)" using ok2 by (simp add: store_ok_def)
      have ext2: "frames st2 = ?h @ (ext @ [\<lparr>parent = r1, call = c\<rparr>])"
        by (simp add: st2_def ext)
      have can2: "canonical st2 b = canonical st1 b" for b
        by (simp add: canonical_def st2_def)
      have calls2: "calls (frames st2) r1 = calls ?h p"
      proof -
        have "heap_ok (frames st1)" using ok1 by (simp add: store_ok_def)
        moreover have "\<forall>b. r1 = Some b \<longrightarrow> b < length (frames st1)"
          using v1 by (simp add: valid_ptr_iff)
        ultimately have "calls (frames st1 @ [\<lparr>parent = r1, call = c\<rparr>]) r1 = calls (frames st1) r1"
          by (rule calls_append)
        with calls1 show ?thesis by (simp add: st2_def)
      qed
      have new: "nsf < length (frames st2)" "frames st2 ! nsf = \<lparr>parent = r1, call = c\<rparr>"
        by (simp_all add: st2_def nsf_def)
      show ?thesis
      proof (cases "internedStackFrames st2 (r1, c)")
        case (Some q)
        have q: "q < length (frames st2)" "frames st2 ! q = \<lparr>parent = r1, call = c\<rparr>"
          using ok2 Some unfolding store_ok_def by blast+
        have "calls (frames st2) (Some q) = calls (frames st2) r1 @ [c]"
          using calls_of_unfold [OF hk2 q(1)] q(2) by (simp add: calls_def)
        then have cq: "calls (frames st2) (Some q) = calls ?h sf" using calls2 ca by simp
        have cn: "canonical st2 q" unfolding canonical_def using Some by (rule ranI)
        have res: "Intern_fuel (Suc n) st sf = Some (st2, Some q)"
          using \<open>sf = Some a\<close> a(1) None I1 E Some
          by (simp add: p_def [symmetric] c_def [symmetric] Let_def)
        have "interned_post st sf st2 (Some q)"
          unfolding interned_post_def
          using ok2 ext2 mono1 can2 q(1) cq cn \<open>sf = Some a\<close>
          by (auto simp: valid_ptr_iff)
        with res show ?thesis by blast
      next
        case None2: None
        define st3 where
          "st3 = st2\<lparr>internedStackFrames := (internedStackFrames st2)((r1, c) \<mapsto> nsf)\<rparr>"
        have can12: "\<forall>b. r1 = Some b \<longrightarrow> canonical st2 b" using can1 can2 by simp
        have ok3: "store_ok st3"
          unfolding st3_def using ok2 None2 new can12 by (rule store_ok_insert)
        have fr3: "frames st3 = frames st2" by (simp add: st3_def)
        have mono3: "canonical st3 b" if "canonical st2 b" for b
          unfolding st3_def using None2 that by (rule canonical_insert)
        have "internedStackFrames st3 (r1, c) = Some nsf" by (simp add: st3_def)
        then have cn: "canonical st3 nsf" unfolding canonical_def by (rule ranI)
        have "calls (frames st2) (Some nsf) = calls (frames st2) r1 @ [c]"
          using calls_of_unfold [OF hk2 new(1)] new(2) by (simp add: calls_def)
        then have cq: "calls (frames st3) (Some nsf) = calls ?h sf"
          using calls2 ca fr3 by simp
        have res: "Intern_fuel (Suc n) st sf = Some (st3, Some nsf)"
          using \<open>sf = Some a\<close> a(1) None I1 E None2
          by (simp add: p_def [symmetric] c_def [symmetric] Let_def st3_def)
        have "interned_post st sf st3 (Some nsf)"
          unfolding interned_post_def
          using ok3 ext2 fr3 mono1 can2 mono3 new(1) cq cn \<open>sf = Some a\<close>
          by (auto simp: valid_ptr_iff)
        with res show ?thesis by blast
      qed
    qed
  qed
qed


lemma store_ok_New: "store_ok NewFrameStore"
  by (simp add: store_ok_def heap_ok_def NewFrameStore_def)

lemma store_ok_Extend:
  "store_ok st \<Longrightarrow> valid_ptr st sf \<Longrightarrow> store_ok (fst (StackFrame_Extend st sf c))"
  by (simp add: StackFrame_Extend_def store_ok_grow)

lemma StackFrame_Intern_correct:
  assumes "store_ok st" and "valid_ptr st sf"
  shows "\<exists>st' r. StackFrame_Intern st sf = Some (st', r) \<and> interned_post st sf st' r"
  unfolding StackFrame_Intern_def using assms
  by (intro Intern_fuel_correct) (auto simp: valid_ptr_iff)

lemma store_ok_Intern:
  assumes "store_ok st" and "valid_ptr st sf" and "StackFrame_Intern st sf = Some (st', r)"
  shows "store_ok st'"
  using StackFrame_Intern_correct [OF assms(1,2)] assms(3) by (auto simp: interned_post_def)

lemma calls_Nil_iff: "calls h sf = [] \<longleftrightarrow> sf = None"
  by (cases sf) (simp_all add: calls_def calls_of_not_Nil)

text \<open>
  Claim C8.  In a store that the program can reach, \<open>a.Intern()\<close> followed by
  \<open>b.Intern()\<close> both return, and the two results are the same pointer if and only if
  \<open>a\<close> and \<open>b\<close> have the same \<open>Flatten\<close> sequence of call sites.
\<close>

theorem Intern_pointer_equal_iff_same_calls:
  assumes ok: "store_ok st" and va: "valid_ptr st a" and vb: "valid_ptr st b"
  shows "\<exists>st1 ia st2 ib fa fb.
           StackFrame_Intern st a = Some (st1, ia) \<and> StackFrame_Intern st1 b = Some (st2, ib) \<and>
           Flatten st a = Some fa \<and> Flatten st b = Some fb \<and> (ia = ib \<longleftrightarrow> fa = fb)"
proof -
  have hk: "heap_ok (frames st)" using ok by (simp add: store_ok_def)
  from StackFrame_Intern_correct [OF ok va] obtain st1 ia where
    I1: "StackFrame_Intern st a = Some (st1, ia)" and P1: "interned_post st a st1 ia" by blast
  from P1 obtain ext1 where e1: "frames st1 = frames st @ ext1"
    by (auto simp: interned_post_def)
  from P1 have ok1: "store_ok st1" and via: "valid_ptr st1 ia"
    and ca: "calls (frames st1) ia = calls (frames st) a"
    by (simp_all add: interned_post_def)
  have hk1: "heap_ok (frames st1)" using ok1 by (simp add: store_ok_def)
  have vb1: "valid_ptr st1 b" using vb e1 by (auto simp: valid_ptr_iff)
  from StackFrame_Intern_correct [OF ok1 vb1] obtain st2 ib where
    I2: "StackFrame_Intern st1 b = Some (st2, ib)" and P2: "interned_post st1 b st2 ib" by blast
  from P2 obtain ext2 where e2: "frames st2 = frames st1 @ ext2"
    by (auto simp: interned_post_def)
  from P2 have ok2: "store_ok st2" and cb2: "calls (frames st2) ib = calls (frames st1) b"
    by (simp_all add: interned_post_def)
  have cb: "calls (frames st2) ib = calls (frames st) b"
    using cb2 calls_append [OF hk, of b ext1] vb e1 by (simp add: valid_ptr_iff)
  have ca2: "calls (frames st2) ia = calls (frames st) a"
    using ca calls_append [OF hk1, of ia ext2] via e2 by (simp add: valid_ptr_iff)
  have fa: "Flatten st a = Some (calls (frames st) a)" using hk va by (rule Flatten_calls)
  have fb: "Flatten st b = Some (calls (frames st) b)" using hk vb by (rule Flatten_calls)
  have "ia = ib \<longleftrightarrow> calls (frames st) a = calls (frames st) b"
  proof
    assume "ia = ib"
    with ca2 cb show "calls (frames st) a = calls (frames st) b" by simp
  next
    assume eq: "calls (frames st) a = calls (frames st) b"
    show "ia = ib"
    proof (cases a)
      case None
      then have "calls (frames st) b = []" using eq by (simp add: calls_def)
      then have "b = None" by (simp add: calls_Nil_iff)
      with None P1 P2 show ?thesis by (simp add: interned_post_def)
    next
      case (Some a')
      then have "calls (frames st) b \<noteq> []" using eq calls_Nil_iff [of "frames st" a] by simp
      then obtain b' where b': "b = Some b'" by (cases b) (simp_all add: calls_def)
      from P1 Some obtain qa where qa: "ia = Some qa" "canonical st1 qa"
        by (auto simp: interned_post_def)
      from P2 b' obtain qb where qb: "ib = Some qb" "canonical st2 qb"
        by (auto simp: interned_post_def)
      have "canonical st2 qa" using P2 qa(2) by (simp add: interned_post_def)
      moreover have "calls_of (frames st2) qa = calls_of (frames st2) qb"
        using ca2 cb eq qa(1) qb(1) by (simp add: calls_def)
      ultimately have "qa = qb" using qb(2) canonical_unique [OF ok2] by blast
      with qa(1) qb(1) show ?thesis by simp
    qed
  qed
  with I1 I2 fa fb show ?thesis by blast
qed

subsection \<open>Two frames with the same calls\<close>

text \<open>Four frames: 0 and 2 are the call 1 on the empty stack, 1 extends 0 and 3 extends 2
  by the call 2.\<close>

definition ex_store :: frame_store where
  "ex_store =
     fst (StackFrame_Extend (fst (StackFrame_Extend (fst (StackFrame_Extend
       (fst (StackFrame_Extend NewFrameStore None 1)) (Some 0) 2)) None 1)) (Some 2) 2)"

lemma ex_store_frames:
  "frames ex_store = [\<lparr>parent = None, call = 1\<rparr>, \<lparr>parent = Some 0, call = 2\<rparr>,
                      \<lparr>parent = None, call = 1\<rparr>, \<lparr>parent = Some 2, call = 2\<rparr>]"
  by (simp add: ex_store_def StackFrame_Extend_def NewFrameStore_def)

lemma ex_store_ok: "store_ok ex_store"
  unfolding ex_store_def
  by (intro store_ok_Extend store_ok_New)
     (simp_all add: valid_ptr_def StackFrame_Extend_def NewFrameStore_def)

lemma ex_store_Flatten:
  "Flatten ex_store (Some 1) = Some [1, 2]" "Flatten ex_store (Some 3) = Some [1, 2]"
  by (simp_all add: Flatten_def ex_store_frames numeral_eq_Suc)

theorem Intern_pointer_equal_iff_same_calls_witness:
  "store_ok ex_store \<and> valid_ptr ex_store (Some 1) \<and> valid_ptr ex_store (Some 3) \<and>
   Flatten ex_store (Some 1) = Some [1, 2] \<and> Flatten ex_store (Some 3) = Some [1, 2] \<and>
   (\<exists>st1 ia st2 ib. StackFrame_Intern ex_store (Some 1) = Some (st1, ia) \<and>
       StackFrame_Intern st1 (Some 3) = Some (st2, ib) \<and> ia = ib)"
proof -
  have v: "valid_ptr ex_store (Some 1)" "valid_ptr ex_store (Some 3)"
    by (simp_all add: valid_ptr_def ex_store_frames)
  from Intern_pointer_equal_iff_same_calls [OF ex_store_ok v]
  obtain st1 ia st2 ib fa fb where
    r: "StackFrame_Intern ex_store (Some 1) = Some (st1, ia)"
       "StackFrame_Intern st1 (Some 3) = Some (st2, ib)"
       "Flatten ex_store (Some 1) = Some fa" "Flatten ex_store (Some 3) = Some fb"
       "ia = ib \<longleftrightarrow> fa = fb"
    by blast
  have "fa = [1, 2]" using r(3) ex_store_Flatten(1) by simp
  moreover have "fb = [1, 2]" using r(4) ex_store_Flatten(2) by simp
  ultimately have "ia = ib" using r(5) by simp
  with r(1,2) ex_store_ok v ex_store_Flatten show ?thesis by blast
qed


section \<open>walkFunction and walkBlock: the walk of a function\<close>

text \<open>
  \<^verbatim>\<open>type PathStateMap struct { m map[pathStateKey][]pathStateMapEntry }\<close>.  The map is
  never iterated; a missing key reads as the nil slice.  The values stored are
  \<^verbatim>\<open>*LockSetSet\<close>, never nil, so \<open>Get\<close> returns nil exactly when it finds no entry.
\<close>

type_synonym 'v PathStateMap = "pathStateKey \<Rightarrow> (PathState \<times> 'v) list"

definition NewPathStateMap :: "'v PathStateMap" where
  "NewPathStateMap = (\<lambda>key. [])"

fun Set_slice :: "(PathState \<times> 'v) list \<Rightarrow> PathState \<Rightarrow> 'v \<Rightarrow> (PathState \<times> 'v) list option" where
  "Set_slice [] ps val = None"
| "Set_slice ((p, v) # rest) ps val =
     (if PathState_Equal p ps then Some ((p, val) # rest)
      else (case Set_slice rest ps val of
              None \<Rightarrow> None
            | Some rest2 \<Rightarrow> Some ((p, v) # rest2)))"

definition PathStateMap_Set :: "'v PathStateMap \<Rightarrow> PathState \<Rightarrow> 'v \<Rightarrow> 'v PathStateMap" where
  "PathStateMap_Set psm ps val =
     (let key = PathState_HashKey ps;
          slice = psm key
      in case Set_slice slice ps val of
           Some slice2 \<Rightarrow> psm(key := slice2)
         | None \<Rightarrow> psm(key := slice @ [(ps, val)]))"

fun Get_slice :: "(PathState \<times> 'v) list \<Rightarrow> PathState \<Rightarrow> 'v option" where
  "Get_slice [] ps = None"
| "Get_slice ((p, v) # rest) ps = (if PathState_Equal p ps then Some v else Get_slice rest ps)"

definition PathStateMap_Get :: "'v PathStateMap \<Rightarrow> PathState \<Rightarrow> 'v option" where
  "PathStateMap_Get psm ps = Get_slice (psm (PathState_HashKey ps)) ps"

text \<open>
  \<^verbatim>\<open>type LockSetSet struct { M map[LockSetKey]*LockSet }\<close>; a nil map reads as the empty
  one.  \<open>LockSet.Key\<close> renders the bits and the positions of the recorded stacks as a
  string; the walker uses it only to file a lockset under, and it is a parameter here.
\<close>

type_synonym LockSetSet = "string \<rightharpoonup> LockSet"

definition NewLockSetSet :: LockSetSet where
  "NewLockSetSet = Map.empty"

definition LockSetSet_Add :: "(LockSet \<Rightarrow> string) \<Rightarrow> LockSetSet \<Rightarrow> LockSet \<Rightarrow> LockSetSet" where
  "LockSetSet_Add Key lss ss = lss(Key ss \<mapsto> ss)"

text \<open>
  A function is its identity, its name (\<^verbatim>\<open>f.Name()\<close>), its qualified name
  (\<^verbatim>\<open>f.String()\<close>) and its blocks; no blocks is the nil slice of an external function.
  Of \<open>funcInfo\<close> and \<open>state\<close> the fields that the walk uses are kept.  The state also holds
  what the walk reaches through package-level variables: the frames allocated by
  \<open>Extend\<close> (\<open>store\<close>) and the StringSpace of the locksets (\<open>strings\<close>); the warnings
  printed are collected in it.
\<close>

record Function =
  fn_id :: nat
  fn_Name :: string
  fn_String :: string
  Blocks :: "nat list"

record funcInfo =
  exitLockSets :: "LockSetSet PathStateMap"
  ifDeps :: "nat \<Rightarrow> nat set"

record state =
  fns :: "nat \<rightharpoonup> funcInfo"
  stack :: sfptr
  store :: frame_store
  strings :: StringSpace
  roots :: "Function list"
  warnings :: "warning list"

text \<open>
  Modelled from the spec: the call handlers are not part of the sources at hand.  The spec
  has a handler as a hook \<open>handler(state, ps, callsite, scratch)\<close> that returns path
  states; it receives the state by pointer, so here it returns the state as well.
\<close>

type_synonym handler = "state \<Rightarrow> PathState \<Rightarrow> nat \<Rightarrow> PathState list \<Rightarrow> state \<times> PathState list"

text \<open>
  What the walk takes from outside.  The SSA program: \<open>prog_blocks\<close> holds the blocks,
  \<open>Parent\<close> is \<^verbatim>\<open>b.Parent()\<close>.  An \<open>ssa_Call\<close> stands for a \<^verbatim>\<open>*ssa.Call\<close> and for
  the instructions that \<open>walkBlock\<close> treats as the call of one function of the runtime (a
  lookup in a map, the making of a channel, map or slice, a map update, a send, a panic);
  \<open>callees_of\<close> is what \<^verbatim>\<open>s.callees\<close> finds for it in the SSA form and the call graph:
  \<open>None\<close> where the graph has no node for the caller, and then \<open>callees\<close> warns and
  returns nil.  \<open>callHandlers\<close> is the table of the handlers, under the qualified names
  of the functions.  \<open>Do\<close> is \<open>ValState.Do\<close>, which is not part of the sources at hand
  either: the constant propagation for one instruction.  \<open>livenessFor\<close> computes the
  values that are live at the blocks of a function, of which the walk makes the masks.
  \<open>Key\<close> is \<open>LockSet.Key\<close>, and \<open>range_M\<close> is the order in which \<^verbatim>\<open>range\<close> visits
  the map of a LockSetSet.
\<close>

record program =
  prog_blocks :: "nat \<Rightarrow> BasicBlock"
  Parent :: "nat \<Rightarrow> Function"
  callees_of :: "nat \<Rightarrow> Function list option"
  callHandlers :: "string \<rightharpoonup> handler"
  Do :: "ValState \<Rightarrow> Instruction \<Rightarrow> ValState"
  livenessFor :: "Function \<Rightarrow> nat \<Rightarrow> nat set"
  Key :: "LockSet \<Rightarrow> string"
  range_M :: "LockSetSet \<Rightarrow> LockSet list"

text \<open>Modelled from the spec: \<open>limit_to_heap()\<close> drops all SSA bindings and keeps the
  heap.\<close>

definition LimitToHeap :: "ValState \<Rightarrow> ValState" where
  "LimitToHeap st = st\<lparr>vs_vals := Map.empty\<rparr>"

text \<open>
  A call of the walk returns, panics, or does not return.  The recursion of
  \<open>walkFunction\<close> and \<open>walkBlock\<close> is bounded by fuel below, and \<open>None\<close> is the result of
  a call that runs out of it; \<open>Some (Inl e)\<close> is a panic.  \<open>then_res\<close> runs the rest of
  the code after a call that returned.
\<close>

type_synonym 'a res = "(error + 'a) option"

definition then_res :: "'a res \<Rightarrow> ('a \<Rightarrow> 'b res) \<Rightarrow> 'b res" where
  "then_res r k = (case r of None \<Rightarrow> None | Some (Inl e) \<Rightarrow> Some (Inl e) | Some (Inr x) \<Rightarrow> k x)"

subsection \<open>walkFunction\<close>

text \<open>The first visit of a function creates its \<open>funcInfo\<close>.\<close>

definition first_visit :: "(Function \<Rightarrow> nat \<Rightarrow> nat set) \<Rightarrow> state \<Rightarrow> Function \<Rightarrow> state \<times> funcInfo" where
  "first_visit lv s f =
     (case fns s (fn_id f) of
        Some fInfo \<Rightarrow> (s, fInfo)
      | None \<Rightarrow>
          (let fInfo = \<lparr>exitLockSets = NewPathStateMap, ifDeps = lv f\<rparr>;
               s1 = s\<lparr>fns := (fns s)(fn_id f \<mapsto> fInfo)\<rparr>;
               s2 = (if Blocks f = [] then s1\<lparr>warnings := warnings s1 @ [ExternalFunction (fn_id f)]\<rparr>
                     else s1)
           in (s2, fInfo)))"

text \<open>\<^verbatim>\<open>fInfo.exitLockSets.Set(ps, val)\<close> writes the table of the \<open>funcInfo\<close> that
  \<open>s.fns[f]\<close> points to.\<close>

definition store_exit :: "state \<Rightarrow> Function \<Rightarrow> funcInfo \<Rightarrow> PathState \<Rightarrow> LockSetSet \<Rightarrow> state" where
  "store_exit s f fInfo ps val =
     s\<lparr>fns := (fns s)(fn_id f \<mapsto> fInfo\<lparr>exitLockSets := PathStateMap_Set (exitLockSets fInfo) ps val\<rparr>)\<rparr>"

text \<open>The state in which the body is walked after a miss: the empty LockSetSet is stored
  at \<open>ps\<close>.\<close>

definition enter_function :: "(Function \<Rightarrow> nat \<Rightarrow> nat set) \<Rightarrow> state \<Rightarrow> Function \<Rightarrow> PathState \<Rightarrow> state" where
  "enter_function lv s f ps =
     (let (s1, fInfo) = first_visit lv s f
      in store_exit s1 f fInfo ps Map.empty)"

text \<open>After the walk \<open>fInfo\<close> still points to the \<open>funcInfo\<close> of \<open>f\<close>, whose table the walk
  may have written through calls of \<open>walkFunction\<close>; \<open>s.fns[f]\<close> is never reassigned.\<close>

definition info_of :: "state \<Rightarrow> Function \<Rightarrow> funcInfo \<Rightarrow> funcInfo" where
  "info_of s f fInfo = (case fns s (fn_id f) of Some fi \<Rightarrow> fi | None \<Rightarrow> fInfo)"

text \<open>
  The body of \<open>walkFunction\<close>; \<open>walkBlock\<close> is the function it calls for the walk of the
  blocks.  That takes the state, the visited set, the entry state and the exit locksets,
  and returns the state, the visited set and the exit locksets.  The debug trees are left
  out.
\<close>

definition walkFunction_body ::
  "program
     \<Rightarrow> (state \<Rightarrow> PathStateSet \<Rightarrow> PathState \<Rightarrow> LockSetSet \<Rightarrow> (state \<times> PathStateSet \<times> LockSetSet) res)
     \<Rightarrow> state \<Rightarrow> Function \<Rightarrow> PathState \<Rightarrow> (state \<times> LockSetSet) res" where
  "walkFunction_body P walkBlock s f ps =
     (let (s1, fInfo) = first_visit (livenessFor P) s f
      in if Blocks f = [] then Some (Inr (s1, LockSetSet_Add (Key P) NewLockSetSet (lockSet ps)))
         else
           (case PathStateMap_Get (exitLockSets fInfo) ps of
              Some memo \<Rightarrow> Some (Inr (s1, memo))
            | None \<Rightarrow>
                (let s2 = store_exit s1 f fInfo ps Map.empty;
                     blockCache = NewPathStateSet;
                     enterPathState = \<lparr>block = Some (hd (Blocks f)), lockSet = lockSet ps,
                                       vs = vs ps, mask_ps = {}\<rparr>
                 in then_res (walkBlock s2 blockCache enterPathState NewLockSetSet)
                      (\<lambda>(s3, blockCache3, exitLS).
                         Some (Inr (store_exit s3 f (info_of s3 f fInfo) ps exitLS, exitLS))))))"

subsection \<open>walkBlock\<close>

text \<open>
  The loop \<^verbatim>\<open>for _, fn := range fns\<close> of the closure of \<open>doCall\<close>.  \<open>ps\<close> is the
  parameter of the closure, which the loop over the exit locksets of a callee assigns.
\<close>

fun callee_loop ::
  "program \<Rightarrow> (state \<Rightarrow> Function \<Rightarrow> PathState \<Rightarrow> (state \<times> LockSetSet) res) \<Rightarrow> nat \<Rightarrow> PathState
     \<Rightarrow> Function list \<Rightarrow> state \<Rightarrow> PathState \<Rightarrow> PathState list \<Rightarrow> (state \<times> PathState list) res" where
  "callee_loop P walkFunction instr psEntry [] s ps newps = Some (Inr (s, newps))"
| "callee_loop P walkFunction instr psEntry (fn # rest) s ps newps =
     (case callHandlers P (fn_String fn) of
        Some handler \<Rightarrow>
          (let (s1, newps1) = handler s ps instr newps
           in callee_loop P walkFunction instr psEntry rest s1 ps newps1)
      | None \<Rightarrow>
          then_res (walkFunction s fn psEntry)
            (\<lambda>(s1, lss).
               let (ps1, newps1) =
                     foldl (\<lambda>(ps, newps) ls. (ps\<lparr>lockSet := ls\<rparr>, newps @ [ps\<lparr>lockSet := ls\<rparr>]))
                       (ps, newps) (range_M P lss)
               in callee_loop P walkFunction instr psEntry rest s1 ps1 newps1))"

text \<open>The closure that \<open>doCall\<close> passes to \<open>FlatMap\<close>.\<close>

definition call_closure ::
  "program \<Rightarrow> (state \<Rightarrow> Function \<Rightarrow> PathState \<Rightarrow> (state \<times> LockSetSet) res) \<Rightarrow> nat \<Rightarrow> Function list
     \<Rightarrow> state \<Rightarrow> PathState \<Rightarrow> PathState list \<Rightarrow> (state \<times> PathState list) res" where
  "call_closure P walkFunction instr fs s ps newps =
     (let psEntry = \<lparr>block = None, lockSet = lockSet ps, vs = LimitToHeap (vs ps), mask_ps = {}\<rparr>
      in callee_loop P walkFunction instr psEntry fs s ps newps)"

text \<open>\<open>FlatMap\<close> with a function that writes the state: the loop over the states of the
  set, each with an empty scratch slice.\<close>

fun FlatMap_loop ::
  "(state \<Rightarrow> PathState \<Rightarrow> PathState list \<Rightarrow> (state \<times> PathState list) res)
     \<Rightarrow> PathState list \<Rightarrow> state \<Rightarrow> PathStateSet \<Rightarrow> (state \<times> PathStateSet) res" where
  "FlatMap_loop f [] s out = Some (Inr (s, out))"
| "FlatMap_loop f (ps # rest) s out =
     then_res (f s ps []) (\<lambda>(s1, nps). FlatMap_loop f rest s1 (foldl Add out nps))"

text \<open>\<open>doCall\<close>: the call site is pushed on the stack for the walk of the callees.\<close>

definition doCall ::
  "program \<Rightarrow> (state \<Rightarrow> Function \<Rightarrow> PathState \<Rightarrow> (state \<times> LockSetSet) res) \<Rightarrow> nat \<Rightarrow> Function list
     \<Rightarrow> state \<Rightarrow> PathStateSet \<Rightarrow> (state \<times> PathStateSet) res" where
  "doCall P walkFunction instr fs s pathStates =
     (let (st1, a) = StackFrame_Extend (store s) (stack s) instr;
          s1 = s\<lparr>store := st1, stack := Some a\<rparr>
      in then_res (FlatMap_loop (call_closure P walkFunction instr fs) (concat (map snd pathStates))
                     s1 NewPathStateSet)
           (\<lambda>(s2, out).
              case stack s2 of
                None \<Rightarrow> Some (Inl NilDereference)
              | Some t \<Rightarrow>
                  if t < length (frames (store s2))
                  then Some (Inr (s2\<lparr>stack := parent (frames (store s2) ! t)\<rparr>, out))
                  else Some (Inl NilDereference)))"

text \<open>\<open>addRoot\<close>; \<open>rootSet\<close> holds the functions of \<open>roots\<close>.\<close>

definition addRoot :: "state \<Rightarrow> Function \<Rightarrow> state" where
  "addRoot s fn = (if fn \<in> set (roots s) then s else s\<lparr>roots := roots s @ [fn]\<rparr>)"

text \<open>\<^verbatim>\<open>s.callees(instr)\<close>, with the warning it prints.\<close>

definition callees :: "program \<Rightarrow> state \<Rightarrow> nat \<Rightarrow> state \<times> Function list" where
  "callees P s instr =
     (case callees_of P instr of
        None \<Rightarrow> (s\<lparr>warnings := warnings s @ [NoCallGraph instr]\<rparr>, [])
      | Some outs \<Rightarrow> (s, outs))"

text \<open>
  The switch on the instruction.  At a return of \<open>traceReleaseBuffer\<close> every state gives
  up \<^verbatim>\<open>runtime.trace.bufLock\<close>: the first call of \<open>MinusLabel\<close> interns the label, and the
  identifier is the same in every call.
\<close>

definition instr_switch ::
  "program \<Rightarrow> (state \<Rightarrow> Function \<Rightarrow> PathState \<Rightarrow> (state \<times> LockSetSet) res) \<Rightarrow> Function \<Rightarrow> Instruction
     \<Rightarrow> state \<times> PathStateSet \<times> nat option \<times> LockSetSet
     \<Rightarrow> (state \<times> PathStateSet \<times> nat option \<times> LockSetSet) res" where
  "instr_switch P walkFunction f instr = (\<lambda>(s, pathStates, ifCond, exitLS).
     case instr of
       ssa_If cond \<Rightarrow> Some (Inr (s, pathStates, Some cond, exitLS))
     | ssa_Call i \<Rightarrow>
         (let (s1, outs) = callees P s i
          in if length outs = 0 then Some (Inr (s1, pathStates, ifCond, exitLS))
             else then_res (doCall P walkFunction i outs s1 pathStates)
                    (\<lambda>(s2, pathStates2). Some (Inr (s2, pathStates2, ifCond, exitLS))))
     | ssa_Go i \<Rightarrow>
         (let (s1, outs) = callees P s i
          in Some (Inr (foldl addRoot s1 outs, pathStates, ifCond, exitLS)))
     | ssa_Return \<Rightarrow>
         (let (s1, pathStates1) =
                (if fn_Name f = ''traceReleaseBuffer'' then
                   (if concat (map snd pathStates) = [] then s
                    else s\<lparr>strings := snd (Intern (strings s) ''runtime.trace.bufLock'')\<rparr>,
                    MapInPlace (\<lambda>ps. ps\<lparr>lockSet :=
                        snd (MinusLabel (strings s) (lockSet ps) ''runtime.trace.bufLock'')\<rparr>) pathStates)
                 else (s, pathStates))
          in Some (Inr (s1, pathStates1, ifCond,
                        foldl (\<lambda>lss ps. LockSetSet_Add (Key P) lss (lockSet ps)) exitLS
                          (concat (map snd pathStates1)))))
     | _ \<Rightarrow> Some (Inr (s, pathStates, ifCond, exitLS)))"

text \<open>The loop over the instructions of the block: the value states take the effect of
  the instruction, then comes the switch.\<close>

fun instr_loop ::
  "program \<Rightarrow> (state \<Rightarrow> Function \<Rightarrow> PathState \<Rightarrow> (state \<times> LockSetSet) res) \<Rightarrow> Function
     \<Rightarrow> Instruction list \<Rightarrow> state \<times> PathStateSet \<times> nat option \<times> LockSetSet
     \<Rightarrow> (state \<times> PathStateSet \<times> nat option \<times> LockSetSet) res" where
  "instr_loop P walkFunction f [] acc = Some (Inr acc)"
| "instr_loop P walkFunction f (instr # rest) (s, pathStates, ifCond, exitLS) =
     then_res (instr_switch P walkFunction f instr
                 (s, MapInPlace (\<lambda>ps. ps\<lparr>vs := Do P (vs ps) instr\<rparr>) pathStates, ifCond, exitLS))
       (instr_loop P walkFunction f rest)"

text \<open>
  The loop \<^verbatim>\<open>for i, b2 := range succs\<close>, which builds \<open>ps2\<close> as \<open>succ_loop\<close> does and
  calls \<open>walkBlock\<close> with it before it turns to the next successor.
\<close>

fun succ_walk ::
  "program
     \<Rightarrow> (state \<Rightarrow> PathStateSet \<Rightarrow> PathState \<Rightarrow> LockSetSet \<Rightarrow> (state \<times> PathStateSet \<times> LockSetSet) res)
     \<Rightarrow> nat \<Rightarrow> nat option \<Rightarrow> PathState \<Rightarrow> nat \<Rightarrow> nat list
     \<Rightarrow> state \<times> PathStateSet \<times> LockSetSet \<Rightarrow> (state \<times> PathStateSet \<times> LockSetSet) res" where
  "succ_walk P walkBlock b ifCond ps i [] acc = Some (Inr acc)"
| "succ_walk P walkBlock b ifCond ps i (b2 # rest) (s, blockCache, exitLS) =
     (let ps2 = ps\<lparr>block := Some b2\<rparr>;
          ps3 = (case ifCond of
                   None \<Rightarrow> ps2
                 | Some c \<Rightarrow> ps2\<lparr>vs := Extend (vs ps2) c (DynConst (MakeBool (i = 0)))\<rparr>)
      in case propagate_phis b (prog_blocks P b2) (Instrs (prog_blocks P b2)) (vs ps3) of
           Inl e \<Rightarrow> Some (Inl e)
         | Inr st \<Rightarrow>
             then_res (walkBlock s blockCache (ps3\<lparr>vs := st\<rparr>) exitLS)
               (succ_walk P walkBlock b ifCond ps (i + 1) rest))"

text \<open>The loop \<^verbatim>\<open>pathStates.ForEach\<close> over the states at the end of the block.\<close>

fun succs_loop ::
  "program
     \<Rightarrow> (state \<Rightarrow> PathStateSet \<Rightarrow> PathState \<Rightarrow> LockSetSet \<Rightarrow> (state \<times> PathStateSet \<times> LockSetSet) res)
     \<Rightarrow> nat \<Rightarrow> nat option \<Rightarrow> PathState list
     \<Rightarrow> state \<times> PathStateSet \<times> LockSetSet \<Rightarrow> (state \<times> PathStateSet \<times> LockSetSet) res" where
  "succs_loop P walkBlock b ifCond [] acc = Some (Inr acc)"
| "succs_loop P walkBlock b ifCond (ps # rest) acc =
     (case choose_succs (Succs (prog_blocks P b)) ifCond ps of
        Inl e \<Rightarrow> Some (Inl e)
      | Inr succs \<Rightarrow>
          then_res (succ_walk P walkBlock b ifCond ps 0 succs acc)
            (succs_loop P walkBlock b ifCond rest))"

text \<open>
  The body of \<open>walkBlock\<close>; \<open>walkFunction\<close> and \<open>walkBlock\<close> are the functions it calls
  for the callees and for the successors.
\<close>

definition walkBlock_body ::
  "program \<Rightarrow> (state \<Rightarrow> Function \<Rightarrow> PathState \<Rightarrow> (state \<times> LockSetSet) res)
     \<Rightarrow> (state \<Rightarrow> PathStateSet \<Rightarrow> PathState \<Rightarrow> LockSetSet \<Rightarrow> (state \<times> PathStateSet \<times> LockSetSet) res)
     \<Rightarrow> state \<Rightarrow> PathStateSet \<Rightarrow> PathState \<Rightarrow> LockSetSet \<Rightarrow> (state \<times> PathStateSet \<times> LockSetSet) res" where
  "walkBlock_body P walkFunction walkBlock s blockCache enterPathState exitLS =
     (case block enterPathState of
        None \<Rightarrow> Some (Inl NilDereference)
      | Some b \<Rightarrow>
          (case fns s (fn_id (Parent P b)) of
             None \<Rightarrow> Some (Inl NilDereference)
           | Some fInfo \<Rightarrow>
               (case walkBlock_enter (ifDeps fInfo) blockCache enterPathState of
                  Inl e \<Rightarrow> Some (Inl e)
                | Inr (oc, blockCache1, ws) \<Rightarrow>
                    (let s1 = s\<lparr>warnings := warnings s @ ws\<rparr>
                     in if oc \<noteq> Proceed then Some (Inr (s1, blockCache1, exitLS))
                        else
                          (let pathStates = Add NewPathStateSet (enterPathState\<lparr>mask_ps := ifDeps fInfo b\<rparr>)
                           in then_res (instr_loop P walkFunction (Parent P b) (Instrs (prog_blocks P b))
                                          (s1, pathStates, None, exitLS))
                                (\<lambda>(s2, pathStates2, ifCond, exitLS2).
                                   succs_loop P walkBlock b ifCond (concat (map snd pathStates2))
                                     (s2, blockCache1, exitLS2)))))))"

subsection \<open>The recursion\<close>

text \<open>
  \<open>walkFunction\<close> and \<open>walkBlock\<close> call each other and themselves.  \<open>walk n\<close> is the pair
  of them with fuel \<open>n\<close>: every call uses up one unit, and a call without fuel does not
  return.
\<close>

primrec walk ::
  "program \<Rightarrow> nat
     \<Rightarrow> (state \<Rightarrow> Function \<Rightarrow> PathState \<Rightarrow> (state \<times> LockSetSet) res) \<times>
        (state \<Rightarrow> PathStateSet \<Rightarrow> PathState \<Rightarrow> LockSetSet \<Rightarrow> (state \<times> PathStateSet \<times> LockSetSet) res)" where
  "walk P 0 = (\<lambda>s f ps. None, \<lambda>s blockCache ps exitLS. None)"
| "walk P (Suc n) =
     (walkFunction_body P (snd (walk P n)),
      walkBlock_body P (fst (walk P n)) (snd (walk P n)))"

definition walkFunction :: "program \<Rightarrow> nat \<Rightarrow> state \<Rightarrow> Function \<Rightarrow> PathState \<Rightarrow> (state \<times> LockSetSet) res" where
  "walkFunction P n = fst (walk P n)"

definition walkBlock ::
  "program \<Rightarrow> nat \<Rightarrow> state \<Rightarrow> PathStateSet \<Rightarrow> PathState \<Rightarrow> LockSetSet
     \<Rightarrow> (state \<times> PathStateSet \<times> LockSetSet) res" where
  "walkBlock P n = snd (walk P n)"


subsection \<open>A call that returns only adds to the memo tables\<close>




text \<open>\<open>table_ext s s'\<close>: every memo table of \<open>s\<close> is still there in \<open>s'\<close>, and each of its
  buckets begins with the entries it had in \<open>s\<close>, keys and values.  \<open>keys_ext\<close> asks this
  of the keys only.\<close>

definition table_ext :: "state \<Rightarrow> state \<Rightarrow> bool" where
  "table_ext s s' =
     (\<forall>g fi. fns s g = Some fi \<longrightarrow>
        (\<exists>fi'. fns s' g = Some fi' \<and> (\<forall>key. prefix (exitLockSets fi key) (exitLockSets fi' key))))"

definition keys_ext :: "state \<Rightarrow> state \<Rightarrow> bool" where
  "keys_ext s s' =
     (\<forall>g fi. fns s g = Some fi \<longrightarrow>
        (\<exists>fi'. fns s' g = Some fi' \<and>
           (\<forall>key. prefix (map fst (exitLockSets fi key)) (map fst (exitLockSets fi' key)))))"























subsection \<open>Equal is an equivalence on well-formed states\<close>




subsection \<open>Get and Set\<close>











lemma first_visit_fns:
  "first_visit lv s f = (s1, fi) \<Longrightarrow> fns s1 (fn_id f) = Some fi"
  by (auto simp: first_visit_def Let_def split: option.splits if_splits)


subsection \<open>walkFunction only adds to the memo tables\<close>

lemma Set_slice_None_iff: "Set_slice slice ps val = None \<longleftrightarrow> Get_slice slice ps = None"
  by (induction slice) (auto split: option.splits if_splits)



















lemma walkFunction_0: "walkFunction P 0 s f ps = None"
  by (simp add: walkFunction_def)

lemma walkBlock_0: "walkBlock P 0 s bc ps ex = None"
  by (simp add: walkBlock_def)

lemma walkFunction_Suc: "walkFunction P (Suc n) = walkFunction_body P (walkBlock P n)"
  by (simp add: walkFunction_def walkBlock_def)

lemma walkBlock_Suc: "walkBlock P (Suc n) = walkBlock_body P (walkFunction P n) (walkBlock P n)"
  by (simp add: walkFunction_def walkBlock_def)


subsection \<open>More fuel does not change a result\<close>

definition le_res :: "'a res \<Rightarrow> 'a res \<Rightarrow> bool" where
  "le_res r r' = (r = None \<or> r = r')"

lemma le_res_refl: "le_res r r"
  by (simp add: le_res_def)

lemma le_res_then:
  assumes "le_res r r'" and "\<And>x. le_res (k x) (k' x)"
  shows "le_res (then_res r k) (then_res r' k')"
proof (cases r)
  case None
  then show ?thesis by (simp add: le_res_def then_res_def)
next
  case (Some a)
  with assms(1) have "r' = Some a" by (simp add: le_res_def)
  with Some assms(2) show ?thesis by (cases a) (simp_all add: then_res_def le_res_def)
qed

lemma callee_loop_le:
  assumes "\<And>s f ps. le_res (wfr s f ps) (wfr' s f ps)"
  shows "le_res (callee_loop P wfr instr psEntry fs s ps newps) (callee_loop P wfr' instr psEntry fs s ps newps)"
proof (induction fs arbitrary: s ps newps)
  case Nil
  show ?case by (simp add: le_res_refl)
next
  case (Cons fn fs)
  show ?case
  proof (cases "callHandlers P (fn_String fn)")
    case (Some h)
    then show ?thesis using Cons.IH by (simp split: prod.splits)
  next
    case None
    then show ?thesis
      using assms Cons.IH by (auto intro!: le_res_then simp: Let_def split: prod.splits)
  qed
qed

lemma FlatMap_loop_le:
  assumes "\<And>s ps nps. le_res (cl s ps nps) (cl' s ps nps)"
  shows "le_res (FlatMap_loop cl pss s out) (FlatMap_loop cl' pss s out)"
proof (induction pss arbitrary: s out)
  case Nil
  show ?case by (simp add: le_res_refl)
next
  case (Cons ps pss)
  show ?case using assms Cons.IH by (auto intro!: le_res_then)
qed

lemma doCall_le:
  assumes "\<And>s f ps. le_res (wfr s f ps) (wfr' s f ps)"
  shows "le_res (doCall P wfr instr fs s pathStates) (doCall P wfr' instr fs s pathStates)"
  unfolding doCall_def Let_def
  by (auto intro!: le_res_then FlatMap_loop_le callee_loop_le assms le_res_refl
      simp: call_closure_def Let_def split: prod.splits)

lemma instr_switch_le:
  assumes "\<And>s f ps. le_res (wfr s f ps) (wfr' s f ps)"
  shows "le_res (instr_switch P wfr f instr acc) (instr_switch P wfr' f instr acc)"
proof -
  obtain s pathStates ifCond exitLS where acc: "acc = (s, pathStates, ifCond, exitLS)"
    by (cases acc) auto
  show ?thesis
    unfolding acc instr_switch_def
    by (cases instr) (auto intro!: le_res_then doCall_le assms le_res_refl simp: Let_def split: prod.splits)
qed

lemma instr_loop_le:
  assumes "\<And>s f ps. le_res (wfr s f ps) (wfr' s f ps)"
  shows "le_res (instr_loop P wfr f instrs acc) (instr_loop P wfr' f instrs acc)"
proof (induction instrs arbitrary: acc)
  case Nil
  show ?case by (simp add: le_res_refl)
next
  case (Cons instr instrs)
  obtain s pathStates ifCond exitLS where acc: "acc = (s, pathStates, ifCond, exitLS)"
    by (cases acc) auto
  show ?case
    unfolding acc using Cons.IH by (auto intro!: le_res_then instr_switch_le assms)
qed

lemma succ_walk_le:
  assumes "\<And>s bc ps ex. le_res (wbr s bc ps ex) (wbr' s bc ps ex)"
  shows "le_res (succ_walk P wbr b ifCond ps i succs acc) (succ_walk P wbr' b ifCond ps i succs acc)"
proof (induction succs arbitrary: i acc)
  case Nil
  show ?case by (simp add: le_res_refl)
next
  case (Cons b2 succs)
  obtain s bc ex where acc: "acc = (s, bc, ex)" by (cases acc) auto
  show ?case
    unfolding acc using Cons.IH
    by (auto intro!: le_res_then assms le_res_refl simp: Let_def split: sum.splits)
qed

lemma succs_loop_le:
  assumes "\<And>s bc ps ex. le_res (wbr s bc ps ex) (wbr' s bc ps ex)"
  shows "le_res (succs_loop P wbr b ifCond pss acc) (succs_loop P wbr' b ifCond pss acc)"
proof (induction pss arbitrary: acc)
  case Nil
  show ?case by (simp add: le_res_refl)
next
  case (Cons ps pss)
  show ?case
    using Cons.IH
    by (auto intro!: le_res_then succ_walk_le assms le_res_refl split: sum.splits)
qed

lemma walkBlock_body_le:
  assumes "\<And>s f ps. le_res (wfr s f ps) (wfr' s f ps)"
    and "\<And>s bc ps ex. le_res (wbr s bc ps ex) (wbr' s bc ps ex)"
  shows "le_res (walkBlock_body P wfr wbr s bc ps ex) (walkBlock_body P wfr' wbr' s bc ps ex)"
  unfolding walkBlock_body_def Let_def
  by (auto intro!: le_res_then instr_loop_le succs_loop_le assms le_res_refl
      split: option.splits sum.splits prod.splits)

lemma walkFunction_body_le:
  assumes "\<And>s bc ps ex. le_res (wbr s bc ps ex) (wbr' s bc ps ex)"
  shows "le_res (walkFunction_body P wbr s f ps) (walkFunction_body P wbr' s f ps)"
  unfolding walkFunction_body_def Let_def
  by (auto intro!: le_res_then assms le_res_refl split: option.splits prod.splits)

lemma walk_le:
  "le_res (walkFunction P n s f ps) (walkFunction P (Suc n) s f ps) \<and>
   le_res (walkBlock P n s bc q ex) (walkBlock P (Suc n) s bc q ex)"
proof (induction n arbitrary: s f ps bc q ex)
  case 0
  show ?case by (simp add: walkFunction_0 walkBlock_0 le_res_def)
next
  case (Suc n)
  have 1: "le_res (walkFunction P n s f ps) (walkFunction P (Suc n) s f ps)" for s f ps
    using Suc by blast
  have 2: "le_res (walkBlock P n s bc q ex) (walkBlock P (Suc n) s bc q ex)" for s bc q ex
    using Suc by blast
  have "le_res (walkFunction_body P (walkBlock P n) s f ps) (walkFunction_body P (walkBlock P (Suc n)) s f ps)"
    using 2 by (rule walkFunction_body_le)
  moreover have "le_res (walkBlock_body P (walkFunction P n) (walkBlock P n) s bc q ex)
                   (walkBlock_body P (walkFunction P (Suc n)) (walkBlock P (Suc n)) s bc q ex)"
    using 1 2 by (rule walkBlock_body_le)
  ultimately show ?case by (simp add: walkFunction_Suc walkBlock_Suc)
qed

text \<open>A call that returns or panics with some fuel does the same with any more fuel.\<close>

lemma walkFunction_fuel:
  "walkFunction P n s f ps = Some r \<Longrightarrow> n \<le> m \<Longrightarrow> walkFunction P m s f ps = Some r"
proof (induction m)
  case 0
  then show ?case by simp
next
  case (Suc m)
  show ?case
  proof (cases "n = Suc m")
    case True
    with Suc.prems show ?thesis by simp
  next
    case False
    with Suc have "walkFunction P m s f ps = Some r" by simp
    with walk_le [of P m s f ps] show ?thesis by (auto simp: le_res_def)
  qed
qed

subsection \<open>The states in which a walk makes its calls\<close>






















subsection \<open>Memoization\<close>









lemma table_ext_keys: "table_ext s s' \<Longrightarrow> keys_ext s s'"
  unfolding table_ext_def keys_ext_def by (meson map_mono_prefix)

lemma keys_extD:
  "keys_ext s s' \<Longrightarrow> fns s g = Some fi \<Longrightarrow>
   \<exists>fi'. fns s' g = Some fi' \<and> (\<forall>key. prefix (map fst (exitLockSets fi key)) (map fst (exitLockSets fi' key)))"
  unfolding keys_ext_def by blast

lemma keys_ext_refl: "keys_ext s s"
  by (simp add: keys_ext_def)

lemma keys_ext_trans:
  assumes "keys_ext s s1" and "keys_ext s1 s2"
  shows "keys_ext s s2"
  unfolding keys_ext_def
proof (intro allI impI)
  fix g fi
  assume "fns s g = Some fi"
  with keys_extD [OF assms(1)] obtain fi1 where 1: "fns s1 g = Some fi1"
    "\<And>key. prefix (map fst (exitLockSets fi key)) (map fst (exitLockSets fi1 key))"
    by blast
  with keys_extD [OF assms(2)] obtain fi2 where 2: "fns s2 g = Some fi2"
    "\<And>key. prefix (map fst (exitLockSets fi1 key)) (map fst (exitLockSets fi2 key))"
    by blast
  have "\<forall>key. prefix (map fst (exitLockSets fi key)) (map fst (exitLockSets fi2 key))"
    using 1(2) 2(2) prefix_order.trans by blast
  with 2(1) show "\<exists>fi'. fns s2 g = Some fi' \<and>
      (\<forall>key. prefix (map fst (exitLockSets fi key)) (map fst (exitLockSets fi' key)))"
    by blast
qed



subsection \<open>Two functions that call themselves\<close>

text \<open>
  Modelled from the spec: the handlers of \<open>lock\<close> and \<open>unlock\<close> are not part of the
  sources at hand.  The spec gives \<open>lock(l)\<close> as \<open>plus(points_to(l), current_stack)\<close>,
  after it recorded the order edges, and \<open>unlock(l)\<close> as \<open>minus(points_to(l))\<close>.  Here
  the argument of both points to the one lock class \<open>a\<close>; the lock order is not part of
  the state.
\<close>

definition ex_lock :: handler where
  "ex_lock s ps instr newps =
     (let (spc, ls) = Plus (strings s) (lockSet ps) [''a''] (stack s)
      in (s\<lparr>strings := spc\<rparr>, newps @ [ps\<lparr>lockSet := ls\<rparr>]))"

definition ex_unlock :: handler where
  "ex_unlock s ps instr newps =
     (let (spc, ls) = Minus (strings s) (lockSet ps) [''a'']
      in (s\<lparr>strings := spc\<rparr>, newps @ [ps\<lparr>lockSet := ls\<rparr>]))"

text \<open>
  The program
  \<^verbatim>\<open>func f() { unlock(&a); lock(&a); f() }\<close> and \<^verbatim>\<open>func g() { g() }\<close>:
  two functions of one block each, with the call sites 10, 20 and 30 in \<open>f\<close> and 40 in
  \<open>g\<close>.
\<close>

definition ex_f :: Function where
  "ex_f = \<lparr>fn_id = 0, fn_Name = ''f'', fn_String = ''main.f'', Blocks = [0]\<rparr>"

definition ex_lock_fn :: Function where
  "ex_lock_fn = \<lparr>fn_id = 1, fn_Name = ''lock'', fn_String = ''runtime.lock'', Blocks = []\<rparr>"

definition ex_unlock_fn :: Function where
  "ex_unlock_fn = \<lparr>fn_id = 2, fn_Name = ''unlock'', fn_String = ''runtime.unlock'', Blocks = []\<rparr>"

definition ex_g :: Function where
  "ex_g = \<lparr>fn_id = 3, fn_Name = ''g'', fn_String = ''main.g'', Blocks = [2]\<rparr>"

definition ex_g_block :: BasicBlock where
  "ex_g_block = \<lparr>Index = 0, Instrs = [ssa_Call 40, ssa_Return], Succs = [], Preds = []\<rparr>"

definition ex_block :: BasicBlock where
  "ex_block = \<lparr>Index = 0, Instrs = [ssa_Call 10, ssa_Call 20, ssa_Call 30, ssa_Return],
               Succs = [], Preds = []\<rparr>"

text \<open>No branch, so no value is live; \<open>Do\<close> leaves the value state as it is at a call
  and at a return.  The walks below add no lockset to a LockSetSet, so that \<open>Key\<close> is
  never called and \<open>range\<close> only ever visits the empty map.\<close>

definition ex_P :: program where
  "ex_P = \<lparr>prog_blocks = (\<lambda>b. if b = 0 then ex_block else ex_g_block),
           Parent = (\<lambda>b. if b = 0 then ex_f else ex_g),
           callees_of = (\<lambda>i. if i = 10 then Some [ex_unlock_fn]
                               else if i = 20 then Some [ex_lock_fn]
                               else if i = 30 then Some [ex_f]
                               else if i = 40 then Some [ex_g] else Some []),
           callHandlers = [''runtime.lock'' \<mapsto> ex_lock, ''runtime.unlock'' \<mapsto> ex_unlock],
           Do = (\<lambda>st instr. st),
           livenessFor = (\<lambda>f b. {}),
           Key = (\<lambda>ls. []),
           range_M = (\<lambda>lss. case lss [] of None \<Rightarrow> [] | Some ls \<Rightarrow> [ls])\<rparr>"





lemma ex_P_simps [simp]:
  "prog_blocks ex_P 0 = ex_block" "Parent ex_P 0 = ex_f"
  "prog_blocks ex_P 2 = ex_g_block" "Parent ex_P 2 = ex_g"
  "callees_of ex_P 40 = Some [ex_g]" "callHandlers ex_P ''main.g'' = None"
  "range_M ex_P Map.empty = []"
  "callees_of ex_P 10 = Some [ex_unlock_fn]" "callees_of ex_P 20 = Some [ex_lock_fn]"
  "callees_of ex_P 30 = Some [ex_f]"
  "callHandlers ex_P ''runtime.lock'' = Some ex_lock"
  "callHandlers ex_P ''runtime.unlock'' = Some ex_unlock"
  "callHandlers ex_P ''main.f'' = None"
  "Do ex_P st instr = st" "livenessFor ex_P f = (\<lambda>b. {})"
  by (simp_all add: ex_P_def)





text \<open>\<open>doCall\<close> for one state and one callee.\<close>

definition push :: "state \<Rightarrow> nat \<Rightarrow> state" where
  "push s i = s\<lparr>store := (store s)\<lparr>frames := frames (store s) @ [\<lparr>parent = stack s, call = i\<rparr>]\<rparr>,
               stack := Some (length (frames (store s)))\<rparr>"










text \<open>The state after the call of \<open>unlock\<close> or \<open>lock\<close> at the call site \<open>i\<close>: one frame
  was allocated, and the label is interned.\<close>

definition ex_after :: "state \<Rightarrow> nat \<Rightarrow> state" where
  "ex_after s i = (push s i)\<lparr>strings := snd (Intern (strings s) ''a''), stack := stack s\<rparr>"

lemma ex_after_simps [simp]:
  "fns (ex_after s i) = fns s" "stack (ex_after s i) = stack s"
  "length (frames (store (ex_after s i))) = Suc (length (frames (store s)))"
  "strings (ex_after s i) = snd (Intern (strings s) ''a'')"
  by (simp_all add: ex_after_def push_def)

lemma push_simps [simp]:
  "fns (push s i) = fns s" "stack (push s i) = Some (length (frames (store s)))"
  "length (frames (store (push s i))) = Suc (length (frames (store s)))"
  "strings (push s i) = strings s"
  by (simp_all add: push_def)




text \<open>The state in which the walk that began in \<open>s\<close> calls \<open>walkFunction\<close> for \<open>ex_f\<close>
  again.\<close>

definition ex_next :: "state \<Rightarrow> state" where
  "ex_next s = push (ex_after (ex_after s 10) 20) 30"












lemma enter_function_fields [simp]:
  "strings (enter_function lv s f ps) = strings s" "store (enter_function lv s f ps) = store s"
  "stack (enter_function lv s f ps) = stack s"
  by (simp_all add: enter_function_def store_exit_def first_visit_def Let_def split: option.splits)




lemma ex_next_simps [simp]:
  "fns (ex_next s) = fns s"
  "length (frames (store (ex_next s))) = Suc (Suc (Suc (length (frames (store s)))))"
  "strings (ex_next s) = snd (Intern (snd (Intern (strings s) ''a'')) ''a'')"
  by (simp_all add: ex_next_def)






subsection \<open>The walk of a function that calls itself with the entry state it was called with\<close>









end
